theory Spec2Isabelle
  imports Main
begin

section \<open>Types and constants (include/openidm/engine/Types.h)\<close>

text \<open>
  \<open>ByteOffset\<close> and \<open>ByteCount\<close> are \<open>int64_t\<close>; they are modelled as \<open>int\<close>. Signed
  overflow is undefined in C++, so every statement below about byte arithmetic carries
  the range of inputs for which no intermediate value leaves the 64-bit range. The one
  place where the source converts between signed and unsigned 64-bit values (the
  division in \<open>initializeSegments\<close>) has the conversion written out. \<open>SegmentId\<close> is
  \<open>uint32_t\<close>: a \<open>nat\<close> whose increment wraps at \<open>2 ^ 32\<close>. \<open>size_t\<close> is a \<open>nat\<close>.
\<close>

type_synonym ByteOffset = int
type_synonym ByteCount = int
type_synonym SegmentId = nat

datatype DownloadState =
  Queued | Probing | Downloading | DlPaused | Merging | Verifying | DlCompleted | DlFailed

datatype SegmentState = Pending | Active | Paused | Completed | Failed | Stolen

datatype ErrorCategory =
  NoError | Network | ServerError | ClientError | FileSystem | Checksum | Cancelled
  | Timeout | SSLError | Unknown

definition MAX_SEGMENTS :: nat where "MAX_SEGMENTS = 32"
definition MIN_SEGMENTS :: nat where "MIN_SEGMENTS = 1"
definition MIN_SEGMENT_SIZE :: ByteCount where "MIN_SEGMENT_SIZE = 1 * 1024 * 1024"
definition MIN_STEAL_SIZE :: ByteCount where "MIN_STEAL_SIZE = 512 * 1024"
definition MAX_RETRIES :: int where "MAX_RETRIES = 5"
definition FILE_BUFFER_SIZE :: nat where "FILE_BUFFER_SIZE = 256 * 1024"

record DownloadError =
  category :: ErrorCategory
  errorCode :: int
  message :: string
  details :: string
  retryCount :: int

definition isRecoverable :: "DownloadError \<Rightarrow> bool" where
  "isRecoverable e =
     (category e = Network \<or> category e = Timeout \<or> category e = ServerError)"

text \<open>\<open>std::clamp(v, lo, hi)\<close>: \<open>lo\<close> when \<open>v < lo\<close>, \<open>hi\<close> when \<open>hi < v\<close>, else \<open>v\<close>.\<close>

definition clamp :: "nat \<Rightarrow> nat \<Rightarrow> nat \<Rightarrow> nat" where
  "clamp v lo hi = (if v < lo then lo else if hi < v then hi else v)"

text \<open>The value of an \<open>int64_t\<close> converted to \<open>uint64_t\<close>, and back.\<close>

definition to_u64 :: "int \<Rightarrow> int" where
  "to_u64 x = x mod 2 ^ 64"

definition to_s64 :: "int \<Rightarrow> int" where
  "to_s64 x = (if x mod 2 ^ 64 < 2 ^ 63 then x mod 2 ^ 64 else x mod 2 ^ 64 - 2 ^ 64)"


section \<open>Segment (include/openidm/engine/Segment.h)\<close>

text \<open>
  The rolling checksum is left out of the record: the body of \<open>calculateCRC32\<close> is not part
  of the sources and no property below reads it.
\<close>

record Segment =
  m_id :: SegmentId
  m_startByte :: ByteOffset
  m_endByte :: ByteOffset
  m_currentByte :: ByteOffset
  m_state :: SegmentState
  m_tempFilePath :: string
  m_retryCount :: int
  m_lastError :: string

definition totalSize :: "Segment \<Rightarrow> ByteCount" where
  "totalSize seg = m_endByte seg - m_startByte seg + 1"

definition downloadedBytes :: "Segment \<Rightarrow> ByteCount" where
  "downloadedBytes seg = m_currentByte seg - m_startByte seg"

definition remainingBytes :: "Segment \<Rightarrow> ByteCount" where
  "remainingBytes seg = m_endByte seg - m_currentByte seg + 1"

definition advanceBy :: "ByteCount \<Rightarrow> Segment \<Rightarrow> Segment" where
  "advanceBy bytes seg = seg\<lparr>m_currentByte := m_currentByte seg + bytes\<rparr>"

definition setState :: "SegmentState \<Rightarrow> Segment \<Rightarrow> Segment" where
  "setState newState seg = seg\<lparr>m_state := newState\<rparr>"

definition setLastError :: "string \<Rightarrow> Segment \<Rightarrow> Segment" where
  "setLastError msg seg = seg\<lparr>m_lastError := msg\<rparr>"

definition incrementRetry :: "Segment \<Rightarrow> Segment" where
  "incrementRetry seg = seg\<lparr>m_retryCount := m_retryCount seg + 1\<rparr>"

definition canRetry :: "Segment \<Rightarrow> bool" where
  "canRetry seg = (m_retryCount seg < MAX_RETRIES)"

definition isSplittable :: "ByteCount \<Rightarrow> Segment \<Rightarrow> bool" where
  "isSplittable minSize seg = (remainingBytes seg \<ge> minSize * 2)"

text \<open>
  Modelled from the spec: the constructor \<open>Segment(id, startByte, endByte)\<close>, whose body
  (Segment.cpp) is not among the sources. The header gives the member defaults (state
  Pending, retry count 0, empty strings); section 3 of the specification asks for
  \<open>start \<le> current_byte\<close> with \<open>downloaded = current_byte - start\<close>, so a new segment starts
  with \<open>current_byte = start\<close>.
\<close>

definition Segment_new :: "SegmentId \<Rightarrow> ByteOffset \<Rightarrow> ByteOffset \<Rightarrow> Segment" where
  "Segment_new sid startB endB =
     \<lparr>m_id = sid, m_startByte = startB, m_endByte = endB, m_currentByte = startB,
      m_state = Pending, m_tempFilePath = [], m_retryCount = 0, m_lastError = []\<rparr>"

text \<open>
  Modelled from the spec: \<open>Segment::split(newId)\<close>, declared in Segment.h with its body
  in the missing Segment.cpp. Header: "Splits the remaining work in half: this segment's
  end is updated to midpoint-1, new segment covers midpoint to original end; returns the
  new segment, or nullopt if not splittable". Specification 4.1: "Midpoint =
  current_byte + remaining/2. Donor's new end = midpoint - 1; new segment covers
  [midpoint, original_end]", and a split of a segment with
  \<open>remaining < 2 * MIN_STEAL_SIZE\<close> "returns none and does not mutate state". The result
  is the pair (donor after the split, new segment). \<open>remaining\<close> is positive wherever the
  division is reached, so C++'s truncating division and \<open>div\<close> agree.
\<close>

definition split :: "SegmentId \<Rightarrow> Segment \<Rightarrow> (Segment \<times> Segment) option" where
  "split newId seg =
     (if isSplittable MIN_STEAL_SIZE seg
      then (let midpoint = m_currentByte seg + remainingBytes seg div 2
            in Some (seg\<lparr>m_endByte := midpoint - 1\<rparr>,
                     Segment_new newId midpoint (m_endByte seg)))
      else None)"


section \<open>Segment scheduler (src/engine/SegmentScheduler.cpp)\<close>

text \<open>
  The scheduler owns its segments in the vector \<open>m_segments\<close>; every other collection
  holds \<open>Segment*\<close> pointers into it. A pointer is modelled as the index of the segment in
  \<open>m_segments\<close> (the vector only grows by \<open>push_back\<close> or is cleared), so a change made
  through one pointer is seen through all of them. The \<open>std::set<Segment*>\<close> collections
  iterate in address order, which the program does not control: they are lists without
  duplicates in some order, and no statement below depends on that order. Worker
  pointers are natural numbers. Qt signals are appended to the log \<open>m_signals\<close>.
\<close>

datatype SchedulerSignal =
  segmentCompleted SegmentId
  | segmentFailed SegmentId string
  | allSegmentsCompleted
  | segmentAdded SegmentId
  | rebalanced nat

record Scheduler =
  m_segments :: "Segment list"
  m_pendingQueue :: "nat list"
  m_activeSegments :: "nat list"
  m_completedSegments :: "nat list"
  m_failedSegments :: "nat list"
  m_workerAssignments :: "(nat \<times> nat) list"
  m_nextSegmentId :: SegmentId
  m_paused :: bool
  m_cancelled :: bool
  m_signals :: "SchedulerSignal list"

definition set_insert :: "nat \<Rightarrow> nat list \<Rightarrow> nat list" where
  "set_insert p ps = (if p \<in> set ps then ps else ps @ [p])"

definition set_erase :: "nat \<Rightarrow> nat list \<Rightarrow> nat list" where
  "set_erase p ps = removeAll p ps"

definition assign :: "nat \<Rightarrow> nat \<Rightarrow> (nat \<times> nat) list \<Rightarrow> (nat \<times> nat) list" where
  "assign w p as = (w, p) # filter (\<lambda>kv. fst kv \<noteq> w) as"

definition unassign :: "nat \<Rightarrow> (nat \<times> nat) list \<Rightarrow> (nat \<times> nat) list" where
  "unassign w as = filter (\<lambda>kv. fst kv \<noteq> w) as"

definition emit :: "SchedulerSignal \<Rightarrow> Scheduler \<Rightarrow> Scheduler" where
  "emit sg s = s\<lparr>m_signals := m_signals s @ [sg]\<rparr>"

text \<open>The scheduler as its constructor leaves it.\<close>

definition SegmentScheduler_new :: Scheduler where
  "SegmentScheduler_new =
     \<lparr>m_segments = [], m_pendingQueue = [], m_activeSegments = [],
      m_completedSegments = [], m_failedSegments = [], m_workerAssignments = [],
      m_nextSegmentId = 0, m_paused = False, m_cancelled = False, m_signals = []\<rparr>"

text \<open>\<open>nextSegmentId\<close>: \<open>m_nextSegmentId.fetch_add(1)\<close> on a 32-bit unsigned counter.\<close>

definition nextSegmentId :: "Scheduler \<Rightarrow> SegmentId \<times> Scheduler" where
  "nextSegmentId s =
     (m_nextSegmentId s, s\<lparr>m_nextSegmentId := (m_nextSegmentId s + 1) mod 2 ^ 32\<rparr>)"

text \<open>
  The loop of \<open>initializeSegments\<close>: \<open>for (size_t i = 0; i < segmentCount; ++i)\<close>, with
  the running \<open>currentStart\<close>. The last segment takes the remainder.
\<close>

function initLoop ::
  "nat \<Rightarrow> nat \<Rightarrow> ByteCount \<Rightarrow> ByteCount \<Rightarrow> ByteOffset \<Rightarrow> Scheduler \<Rightarrow> Scheduler" where
  "initLoop i segmentCount segmentSize remainder currentStart s =
     (if i < segmentCount
      then (let thisSize = (if i = segmentCount - 1 then segmentSize + remainder
                            else segmentSize);
                startByte = currentStart;
                endByte = currentStart + thisSize - 1;
                (sid, s1) = nextSegmentId s;
                ptr = length (m_segments s1);
                s2 = s1\<lparr>m_segments := m_segments s1 @ [Segment_new sid startByte endByte],
                        m_pendingQueue := m_pendingQueue s1 @ [ptr]\<rparr>
            in initLoop (i + 1) segmentCount segmentSize remainder (endByte + 1) s2)
      else s)"
  by pat_completeness auto
termination
  by (relation "measure (\<lambda>(i, n, sz, r, c, s). n - i)") auto

declare initLoop.simps [simp del]

text \<open>
  \<open>initializeSegments(totalSize, segmentCount)\<close>. \<open>totalSize / segmentCount\<close> divides an
  \<open>int64_t\<close> by a \<open>size_t\<close>: the dividend is converted to unsigned, and the quotient back
  to \<open>ByteCount\<close>. The returned vector holds the pointers pushed on the pending queue.
\<close>

definition initializeSegments :: "ByteCount \<Rightarrow> nat \<Rightarrow> Scheduler \<Rightarrow> nat list \<times> Scheduler" where
  "initializeSegments totalSz requested s =
     (let s0 = s\<lparr>m_segments := [], m_pendingQueue := [], m_activeSegments := [],
                 m_completedSegments := [], m_failedSegments := [], m_nextSegmentId := 0\<rparr>;
          segmentCount = clamp requested MIN_SEGMENTS MAX_SEGMENTS;
          segmentSize = to_s64 (to_u64 totalSz div int segmentCount);
          remainder = to_s64 (to_u64 totalSz mod int segmentCount);
          s1 = initLoop 0 segmentCount segmentSize remainder 0 s0
      in (m_pendingQueue s1, s1))"

definition calculateOptimalSegmentCount :: "ByteCount \<Rightarrow> nat" where
  "calculateOptimalSegmentCount totalSz =
     (if totalSz \<le> 0 then MIN_SEGMENTS
      else clamp (nat (totalSz div MIN_SEGMENT_SIZE)) MIN_SEGMENTS MAX_SEGMENTS)"

text \<open>
  \<open>DownloadTask::initializeSegments\<close> (src/engine/DownloadTask.cpp): one segment when the
  server has no range support or the size is not positive, the optimal count otherwise.
\<close>

definition task_initializeSegments :: "bool \<Rightarrow> ByteCount \<Rightarrow> Scheduler \<Rightarrow> nat list \<times> Scheduler" where
  "task_initializeSegments supportsRanges fileSize s =
     (let segmentCount = (if supportsRanges \<and> 0 < fileSize
                          then calculateOptimalSegmentCount fileSize else 1)
      in initializeSegments fileSize segmentCount s)"

text \<open>
  \<open>findLargestActiveSegment\<close>: the loop over \<open>m_activeSegments\<close> with the running
  \<open>largest\<close> and \<open>maxRemaining\<close>.
\<close>

fun findLargestLoop :: "Segment list \<Rightarrow> nat list \<Rightarrow> nat option \<Rightarrow> ByteCount \<Rightarrow> nat option" where
  "findLargestLoop segs [] largest maxRemaining = largest"
| "findLargestLoop segs (p # ps) largest maxRemaining =
     (let remaining = remainingBytes (segs ! p)
      in if remaining > maxRemaining \<and> isSplittable MIN_STEAL_SIZE (segs ! p)
         then findLargestLoop segs ps (Some p) remaining
         else findLargestLoop segs ps largest maxRemaining)"

definition findLargestActiveSegment :: "Scheduler \<Rightarrow> nat option" where
  "findLargestActiveSegment s = findLargestLoop (m_segments s) (m_activeSegments s) None 0"

text \<open>
  \<open>stealWork(worker)\<close>. The new segment is pushed at the end of \<open>m_segments\<close>, so its
  pointer is the old length of the vector; the donor is changed in place.
\<close>

definition stealWork :: "nat \<Rightarrow> Scheduler \<Rightarrow> nat option \<times> Scheduler" where
  "stealWork worker s =
     (if m_paused s \<or> m_cancelled s then (None, s)
      else (case findLargestActiveSegment s of
              None \<Rightarrow> (None, s)
            | Some largest \<Rightarrow>
                if isSplittable MIN_STEAL_SIZE (m_segments s ! largest)
                then (let (newId, s1) = nextSegmentId s
                      in (case split newId (m_segments s1 ! largest) of
                            None \<Rightarrow> (None, s1)
                          | Some (donor, newSegment) \<Rightarrow>
                              (let ptr = length (m_segments s1);
                                   s2 = s1\<lparr>m_segments :=
                                             (m_segments s1)[largest := donor]
                                               @ [setState Active newSegment],
                                           m_activeSegments :=
                                             set_insert ptr (m_activeSegments s1),
                                           m_workerAssignments :=
                                             assign worker ptr (m_workerAssignments s1)\<rparr>
                               in (Some ptr, emit (segmentAdded newId) s2))))
                else (None, s)))"

text \<open>\<open>acquireSegment(worker)\<close>: the head of the pending queue, or stolen work.\<close>

definition acquireSegment :: "nat \<Rightarrow> Scheduler \<Rightarrow> nat option \<times> Scheduler" where
  "acquireSegment worker s =
     (if m_paused s \<or> m_cancelled s then (None, s)
      else (case m_pendingQueue s of
              p # ps \<Rightarrow>
                (Some p,
                 s\<lparr>m_pendingQueue := ps,
                   m_segments := (m_segments s)[p := setState Active (m_segments s ! p)],
                   m_activeSegments := set_insert p (m_activeSegments s),
                   m_workerAssignments := assign worker p (m_workerAssignments s)\<rparr>)
            | [] \<Rightarrow> stealWork worker s))"

definition isAllComplete :: "Scheduler \<Rightarrow> bool" where
  "isAllComplete s =
     (m_pendingQueue s = [] \<and> m_activeSegments s = [] \<and> m_failedSegments s = [])"

definition hasFailed :: "Scheduler \<Rightarrow> bool" where
  "hasFailed s = (m_failedSegments s \<noteq> [])"

definition checkAllComplete :: "Scheduler \<Rightarrow> Scheduler" where
  "checkAllComplete s = (if isAllComplete s then emit allSegmentsCompleted s else s)"

text \<open>
  \<open>releaseSegment(worker, segment)\<close>, for a non-null segment: routed on the state the
  worker left in the segment.
\<close>

definition releaseSegment :: "nat \<Rightarrow> nat \<Rightarrow> Scheduler \<Rightarrow> Scheduler" where
  "releaseSegment worker p s =
     (let s1 = s\<lparr>m_activeSegments := set_erase p (m_activeSegments s),
                 m_workerAssignments := unassign worker (m_workerAssignments s)\<rparr>;
          seg = m_segments s1 ! p
      in (case m_state seg of
            Completed \<Rightarrow>
              checkAllComplete
                (emit (segmentCompleted (m_id seg))
                   (s1\<lparr>m_completedSegments := set_insert p (m_completedSegments s1)\<rparr>))
          | Failed \<Rightarrow>
              if canRetry seg
              then s1\<lparr>m_segments := (m_segments s1)[p := setState Pending seg],
                      m_pendingQueue := m_pendingQueue s1 @ [p]\<rparr>
              else emit (segmentFailed (m_id seg) (m_lastError seg))
                     (s1\<lparr>m_failedSegments := set_insert p (m_failedSegments s1)\<rparr>)
          | Paused \<Rightarrow> s1\<lparr>m_pendingQueue := p # m_pendingQueue s1\<rparr>
          | _ \<Rightarrow>
              s1\<lparr>m_segments := (m_segments s1)[p := setState Pending seg],
                 m_pendingQueue := m_pendingQueue s1 @ [p]\<rparr>))"

text \<open>\<open>markFailed(segment, error)\<close>: the one caller of \<open>incrementRetry\<close> in the sources.\<close>

definition markFailed :: "nat \<Rightarrow> string \<Rightarrow> Scheduler \<Rightarrow> Scheduler" where
  "markFailed p err s =
     (let seg = incrementRetry (setLastError err (m_segments s ! p));
          s1 = s\<lparr>m_segments := (m_segments s)[p := seg],
                 m_activeSegments := set_erase p (m_activeSegments s)\<rparr>
      in if canRetry seg
         then s1\<lparr>m_segments := (m_segments s1)[p := setState Pending seg],
                 m_pendingQueue := m_pendingQueue s1 @ [p]\<rparr>
         else emit (segmentFailed (m_id seg) err)
                (s1\<lparr>m_segments := (m_segments s1)[p := setState Failed seg],
                    m_failedSegments := set_insert p (m_failedSegments s1)\<rparr>))"

text \<open>
  \<open>waitForWork(timeout)\<close> on a scheduler that no other thread touches during the wait:
  it returns at once when there is pending or active work, and otherwise the value of
  the wait's predicate (pending work, or the cancelled or paused flag); \<open>False\<close> is the
  timeout.
\<close>

definition waitForWork :: "Scheduler \<Rightarrow> bool" where
  "waitForWork s =
     (if m_pendingQueue s = [] \<and> m_activeSegments s = []
      then (if m_pendingQueue s = [] then m_cancelled s \<or> m_paused s else True)
      else True)"

definition cancelAll :: "Scheduler \<Rightarrow> Scheduler" where
  "cancelAll s =
     s\<lparr>m_cancelled := True, m_paused := False, m_pendingQueue := [],
       m_activeSegments := [], m_workerAssignments := []\<rparr>"

definition reset :: "Scheduler \<Rightarrow> Scheduler" where
  "reset s =
     s\<lparr>m_segments := [], m_pendingQueue := [], m_activeSegments := [],
       m_completedSegments := [], m_failedSegments := [], m_workerAssignments := [],
       m_nextSegmentId := 0, m_paused := False, m_cancelled := False\<rparr>"



text \<open>
  \<open>pauseAll\<close>: every active segment becomes Paused and goes to the front of the pending
  queue; \<open>resumeAll\<close>: every Paused segment becomes Pending. The rebalance timer is not
  modelled.
\<close>

fun pauseLoop :: "nat list \<Rightarrow> Scheduler \<Rightarrow> Scheduler" where
  "pauseLoop [] s = s"
| "pauseLoop (p # ps) s =
     pauseLoop ps (s\<lparr>m_segments := (m_segments s)[p := setState Paused (m_segments s ! p)],
                     m_pendingQueue := p # m_pendingQueue s\<rparr>)"

definition pauseAll :: "Scheduler \<Rightarrow> Scheduler" where
  "pauseAll s =
     (pauseLoop (m_activeSegments s) (s\<lparr>m_paused := True\<rparr>))
       \<lparr>m_activeSegments := [], m_workerAssignments := []\<rparr>"

definition resumeAll :: "Scheduler \<Rightarrow> Scheduler" where
  "resumeAll s =
     s\<lparr>m_paused := False,
       m_segments := map (\<lambda>seg. if m_state seg = Paused then setState Pending seg else seg)
                       (m_segments s)\<rparr>"

text \<open>
  \<open>rebalanceSegments\<close>. Whether the worker of an active segment is slow (a worker is
  assigned, it has statistics, and its throughput is below half the mean) is a
  comparison of floating-point throughputs; it is the parameter \<open>slow\<close>, a predicate on
  segment pointers. \<open>rebalanceStep\<close> is the body of the loop for a slow segment: the
  upper half of a segment with at least \<open>4 * MIN_STEAL_SIZE\<close> bytes left goes to the back
  of the pending queue. The number of splits is the number of segments added.
\<close>

definition rebalanceStep :: "nat \<Rightarrow> Scheduler \<Rightarrow> Scheduler" where
  "rebalanceStep p s =
     (if isSplittable (MIN_STEAL_SIZE * 2) (m_segments s ! p)
      then (let (newId, s1) = nextSegmentId s
            in (case split newId (m_segments s1 ! p) of
                  None \<Rightarrow> s1
                | Some (donor, newSegment) \<Rightarrow>
                    s1\<lparr>m_segments := (m_segments s1)[p := donor] @ [newSegment],
                       m_pendingQueue := m_pendingQueue s1 @ [length (m_segments s1)]\<rparr>))
      else s)"

fun rebalanceLoop :: "(nat \<Rightarrow> bool) \<Rightarrow> nat list \<Rightarrow> Scheduler \<Rightarrow> Scheduler" where
  "rebalanceLoop slow [] s = s"
| "rebalanceLoop slow (p # ps) s =
     rebalanceLoop slow ps (if slow p then rebalanceStep p s else s)"

definition rebalanceSegments :: "(nat \<Rightarrow> bool) \<Rightarrow> Scheduler \<Rightarrow> Scheduler" where
  "rebalanceSegments slow s =
     (if m_paused s \<or> m_cancelled s \<or> m_activeSegments s = [] then s
      else (let s1 = rebalanceLoop slow (m_activeSegments s) s;
                splitCount = length (m_segments s1) - length (m_segments s)
            in if 0 < splitCount then emit (rebalanced splitCount) s1 else s1))"


section \<open>Specification predicates for the scheduler\<close>

text \<open>
  \<open>chain a segs z\<close>: in vector order the segments are contiguous, the first starts at
  \<open>a\<close>, each next one starts right after the end of the one before, none has a negative
  size, and the last ends at \<open>z\<close>. \<open>covering segs b\<close> counts the segments whose range
  \<open>[start, end]\<close> holds the byte offset \<open>b\<close>. \<open>partitions segs totalSz\<close>: every offset
  of \<open>[0, totalSz)\<close> lies in exactly one segment, no segment holds an offset outside it
  (no gap, no overlap), and the sizes \<open>end - start + 1\<close> add up to \<open>totalSz\<close>; it does not
  depend on the order of the vector, which splits do not keep sorted.
\<close>

fun chain :: "ByteOffset \<Rightarrow> Segment list \<Rightarrow> ByteOffset \<Rightarrow> bool" where
  "chain a [] z = (z = a - 1)"
| "chain a (x # xs) z =
     (m_startByte x = a \<and> a - 1 \<le> m_endByte x \<and> chain (m_endByte x + 1) xs z)"

definition covering :: "Segment list \<Rightarrow> ByteOffset \<Rightarrow> nat" where
  "covering segs b =
     length (filter (\<lambda>seg. m_startByte seg \<le> b \<and> b \<le> m_endByte seg) segs)"

definition partitions :: "Segment list \<Rightarrow> ByteCount \<Rightarrow> bool" where
  "partitions segs totalSz =
     ((\<forall>b. covering segs b = (if 0 \<le> b \<and> b < totalSz then 1 else 0))
      \<and> sum_list (map totalSize segs) = totalSz)"

text \<open>
  The invariant that splits preserve: the partition, \<open>start \<le> current_byte\<close> in every
  segment (a split computes the midpoint from \<open>current_byte\<close>), and pointers of the
  active set and the pending queue that point into \<open>m_segments\<close>.
\<close>

definition sched_inv :: "ByteCount \<Rightarrow> Scheduler \<Rightarrow> bool" where
  "sched_inv totalSz s =
     (partitions (m_segments s) totalSz
      \<and> list_all (\<lambda>seg. m_startByte seg \<le> m_currentByte seg) (m_segments s)
      \<and> list_all (\<lambda>p. p < length (m_segments s)) (m_activeSegments s)
      \<and> list_all (\<lambda>p. p < length (m_segments s)) (m_pendingQueue s))"

text \<open>
  A paused or cancelled scheduler has no active segment: \<open>pauseAll\<close> and \<open>cancelAll\<close> empty
  the active set, and \<open>acquireSegment\<close> and \<open>stealWork\<close>, the only operations that add to
  it, return at once under either flag.
\<close>

definition flags_inv :: "Scheduler \<Rightarrow> bool" where
  "flags_inv s = (if m_paused s \<or> m_cancelled s then m_activeSegments s = [] else True)"

text \<open>
  The segment ids of a scheduler: the segment at position \<open>i\<close> of \<open>m_segments\<close> has the
  \<open>i\<close>-th value of the 32-bit id counter, and the counter stands at the number of
  segments. \<open>initializeSegments\<close> sets the counter to \<open>0\<close> and every later \<open>nextSegmentId()\<close>
  is followed by one \<open>push_back\<close>. (\<open>restoreSegments\<close>, which takes ids from snapshots, has
  no caller in the sources.)
\<close>

definition ids_inv :: "Scheduler \<Rightarrow> bool" where
  "ids_inv s =
     (m_nextSegmentId s = length (m_segments s) mod 2 ^ 32
      \<and> map m_id (m_segments s) = map (\<lambda>i. i mod 2 ^ 32) [0 ..< length (m_segments s)])"

text \<open>
  Calls that reach a scheduler while a task downloads, in any order and number: a worker
  asking for a segment, a worker stealing, the periodic rebalance (with the pointers
  judged slow), and a worker's write callback advancing \<open>current_byte\<close> of a segment by
  the size of the buffer it received (\<open>segment->advanceBy(totalSize)\<close>).
\<close>

datatype SchedulerCall =
  CallAcquire nat | CallSteal nat | CallRebalance "nat list" | CallAdvance nat nat

fun call :: "SchedulerCall \<Rightarrow> Scheduler \<Rightarrow> Scheduler" where
  "call (CallAcquire w) s = snd (acquireSegment w s)"
| "call (CallSteal w) s = snd (stealWork w s)"
| "call (CallRebalance slowPtrs) s = rebalanceSegments (\<lambda>p. p \<in> set slowPtrs) s"
| "call (CallAdvance p n) s =
     (if p < length (m_segments s)
      then s\<lparr>m_segments := (m_segments s)[p := advanceBy (int n) (m_segments s ! p)]\<rparr>
      else s)"

fun calls :: "SchedulerCall list \<Rightarrow> Scheduler \<Rightarrow> Scheduler" where
  "calls [] s = s"
| "calls (c # cs) s = calls cs (call c s)"

text \<open>The scheduler after \<open>stealWork\<close> has split the segment \<open>d\<close> for \<open>worker\<close>.\<close>

definition stolen :: "nat \<Rightarrow> nat \<Rightarrow> Scheduler \<Rightarrow> Scheduler" where
  "stolen worker d s =
     (let seg = m_segments s ! d;
          midpoint = m_currentByte seg + remainingBytes seg div 2
      in s\<lparr>m_nextSegmentId := (m_nextSegmentId s + 1) mod 2 ^ 32,
           m_segments := (m_segments s)[d := seg\<lparr>m_endByte := midpoint - 1\<rparr>]
              @ [\<lparr>m_id = m_nextSegmentId s, m_startByte = midpoint, m_endByte = m_endByte seg,
                   m_currentByte = midpoint, m_state = Active, m_tempFilePath = [],
                   m_retryCount = 0, m_lastError = []\<rparr>],
           m_activeSegments := set_insert (length (m_segments s)) (m_activeSegments s),
           m_workerAssignments := assign worker (length (m_segments s)) (m_workerAssignments s),
           m_signals := m_signals s @ [segmentAdded (m_nextSegmentId s)]\<rparr>)"

text \<open>A scheduler with one active segment of 4 MiB, held by worker 1, nothing downloaded.\<close>

definition steal_example :: Scheduler where
  "steal_example =
     SegmentScheduler_new
       \<lparr>m_segments := [setState Active (Segment_new 0 0 4194303)],
        m_activeSegments := [0], m_workerAssignments := [(1, 0)], m_nextSegmentId := 1\<rparr>"


section \<open>Segment worker (src/engine/SegmentWorker.cpp)\<close>

text \<open>
  The result codes of \<open>curl_easy_perform\<close> that the worker tells apart, with their values
  in curl/curl.h; every other code is \<open>CURLE_OTHER\<close> with its value.
\<close>

datatype CURLcode =
  CURLE_OK | CURLE_COULDNT_RESOLVE_HOST | CURLE_COULDNT_CONNECT | CURLE_HTTP_RETURNED_ERROR
  | CURLE_WRITE_ERROR | CURLE_OPERATION_TIMEDOUT | CURLE_SSL_CONNECT_ERROR
  | CURLE_ABORTED_BY_CALLBACK | CURLE_SEND_ERROR | CURLE_RECV_ERROR | CURLE_SSL_CERTPROBLEM
  | CURLE_SSL_CIPHER | CURLE_PEER_FAILED_VERIFICATION | CURLE_OTHER int

fun curl_code :: "CURLcode \<Rightarrow> int" where
  "curl_code CURLE_OK = 0"
| "curl_code CURLE_COULDNT_RESOLVE_HOST = 6"
| "curl_code CURLE_COULDNT_CONNECT = 7"
| "curl_code CURLE_HTTP_RETURNED_ERROR = 22"
| "curl_code CURLE_WRITE_ERROR = 23"
| "curl_code CURLE_OPERATION_TIMEDOUT = 28"
| "curl_code CURLE_SSL_CONNECT_ERROR = 35"
| "curl_code CURLE_ABORTED_BY_CALLBACK = 42"
| "curl_code CURLE_SEND_ERROR = 55"
| "curl_code CURLE_RECV_ERROR = 56"
| "curl_code CURLE_SSL_CERTPROBLEM = 58"
| "curl_code CURLE_SSL_CIPHER = 59"
| "curl_code CURLE_PEER_FAILED_VERIFICATION = 60"
| "curl_code (CURLE_OTHER n) = n"

text \<open>The decimal digits that \<open>QString::arg\<close> puts in place of an integer argument.\<close>

function decimal :: "nat \<Rightarrow> string" where
  "decimal n = (if n < 10 then [char_of (48 + n)]
                else decimal (n div 10) @ [char_of (48 + n mod 10)])"
  by pat_completeness auto
termination
  by (relation "measure id") auto

declare decimal.simps [simp del]

definition arg_int :: "int \<Rightarrow> string" where
  "arg_int i = (if i < 0 then CHR ''-'' # decimal (nat (- i)) else decimal (nat i))"

text \<open>
  The open temp file of a worker: the bytes it holds and the number of further bytes
  the device takes. \<open>QFile::write\<close> returns the number of bytes written, which is less
  than the number offered once the device is full.
\<close>

record TempFile =
  tf_bytes :: string
  tf_room :: nat

definition file_write :: "string \<Rightarrow> TempFile \<Rightarrow> int \<times> TempFile" where
  "file_write buf f =
     (if length buf \<le> tf_room f
      then (int (length buf), \<lparr>tf_bytes = tf_bytes f @ buf, tf_room = tf_room f - length buf\<rparr>)
      else (int (tf_room f), \<lparr>tf_bytes = tf_bytes f @ take (tf_room f) buf, tf_room = 0\<rparr>))"

text \<open>
  The members of \<open>SegmentWorker\<close> that the download path reads or writes. \<open>m_self\<close> is the
  worker's own pointer, the key of the scheduler's assignment table; \<open>m_currentSegment\<close>
  points into \<open>m_segments\<close> of the scheduler; \<open>m_tempFile\<close> is \<open>None\<close> when the pointer is
  null or the file is not open. The speed samples and the Qt signals of the worker are
  left out: the only slot connected to a signal of the worker writes a log line, and
  the samples are wall-clock data that no branch of the download path reads.
\<close>

record Worker =
  m_self :: nat
  m_currentSegment :: "nat option"
  m_tempFile :: "TempFile option"
  m_shouldStop :: bool
  m_isPaused :: bool
  m_segmentBytesDownloaded :: ByteCount
  m_totalBytesDownloaded :: ByteCount

definition SegmentWorker_new :: "nat \<Rightarrow> Worker" where
  "SegmentWorker_new self =
     \<lparr>m_self = self, m_currentSegment = None, m_tempFile = None, m_shouldStop = False,
      m_isPaused = False, m_segmentBytesDownloaded = 0, m_totalBytesDownloaded = 0\<rparr>"

text \<open>
  \<open>writeCallback(ptr, size, nmemb, userdata)\<close>: \<open>buf\<close> is the buffer of \<open>size * nmemb\<close>
  bytes at \<open>ptr\<close>. The result is the number of bytes reported back to libcurl, the worker
  and the scheduler whose segment was advanced. The call of \<open>updateChecksum\<close> is left
  out with the checksum, \<open>updateSpeed\<close> and \<open>reportThroughput\<close> with the speed samples.
\<close>

definition writeCallback :: "string \<Rightarrow> Worker \<Rightarrow> Scheduler \<Rightarrow> nat \<times> Worker \<times> Scheduler" where
  "writeCallback buf w s =
     (let totalSize = length buf
      in (case m_tempFile w of
            None \<Rightarrow> (0, w, s)
          | Some f \<Rightarrow>
              (let (written, f1) = file_write buf f;
                   w1 = w\<lparr>m_tempFile := Some f1\<rparr>
               in if written = int totalSize
                  then (let s1 = (case m_currentSegment w1 of
                                    None \<Rightarrow> s
                                  | Some p \<Rightarrow>
                                      s\<lparr>m_segments := (m_segments s)
                                           [p := advanceBy (int totalSize) (m_segments s ! p)]\<rparr>);
                            w2 = w1\<lparr>m_segmentBytesDownloaded :=
                                       m_segmentBytesDownloaded w1 + int totalSize,
                                     m_totalBytesDownloaded :=
                                       m_totalBytesDownloaded w1 + int totalSize\<rparr>
                        in (totalSize, w2, s1))
                  else (0, w1, s))))"

text \<open>
  \<open>handleCurlError(code, segment)\<close>. The HTTP status that \<open>curl_easy_getinfo\<close> reports and
  the text of \<open>curl_easy_strerror\<close> are arguments; the timestamp is left out.
\<close>

definition handleCurlError :: "CURLcode \<Rightarrow> Segment \<Rightarrow> int \<Rightarrow> string \<Rightarrow> DownloadError" where
  "handleCurlError code seg httpCode errorStr =
     (let error = \<lparr>category = NoError, errorCode = curl_code code, message = [],
                    details = errorStr, retryCount = m_retryCount seg\<rparr>
      in (case code of
            CURLE_COULDNT_RESOLVE_HOST \<Rightarrow>
              error\<lparr>category := Network, message := ''Network error: '' @ errorStr\<rparr>
          | CURLE_COULDNT_CONNECT \<Rightarrow>
              error\<lparr>category := Network, message := ''Network error: '' @ errorStr\<rparr>
          | CURLE_OPERATION_TIMEDOUT \<Rightarrow>
              error\<lparr>category := Network, message := ''Network error: '' @ errorStr\<rparr>
          | CURLE_RECV_ERROR \<Rightarrow>
              error\<lparr>category := Network, message := ''Network error: '' @ errorStr\<rparr>
          | CURLE_SEND_ERROR \<Rightarrow>
              error\<lparr>category := Network, message := ''Network error: '' @ errorStr\<rparr>
          | CURLE_SSL_CONNECT_ERROR \<Rightarrow>
              error\<lparr>category := SSLError, message := ''SSL error: '' @ errorStr\<rparr>
          | CURLE_SSL_CERTPROBLEM \<Rightarrow>
              error\<lparr>category := SSLError, message := ''SSL error: '' @ errorStr\<rparr>
          | CURLE_SSL_CIPHER \<Rightarrow>
              error\<lparr>category := SSLError, message := ''SSL error: '' @ errorStr\<rparr>
          | CURLE_PEER_FAILED_VERIFICATION \<Rightarrow>
              error\<lparr>category := SSLError, message := ''SSL error: '' @ errorStr\<rparr>
          | CURLE_HTTP_RETURNED_ERROR \<Rightarrow>
              error\<lparr>category := ServerError, errorCode := httpCode,
                    message := ''HTTP error '' @ arg_int httpCode\<rparr>
          | _ \<Rightarrow>
              error\<lparr>category := Unknown, message := ''Download error: '' @ errorStr\<rparr>))"

text \<open>
  What the outside world does during one call of \<open>downloadSegment\<close>: the bytes the temp
  file already holds when it is opened for appending, whether opening it succeeds, the
  room left on the device, the buffers that libcurl hands to the write callback in
  order, the code \<open>curl_easy_perform\<close> returns when no callback stopped the transfer, and
  the HTTP status and error text that libcurl reports afterwards. Neither \<open>initCurl\<close> nor
  \<open>configureCurl\<close> sets \<open>CURLOPT_FAILONERROR\<close>, so libcurl treats a response with a status
  of 400 or more like any other: its body goes to the write callback and the result is
  \<open>CURLE_OK\<close>.
\<close>

record Transfer =
  tr_existing :: string
  tr_openOk :: bool
  tr_room :: nat
  tr_buffers :: "string list"
  tr_result :: CURLcode
  tr_httpCode :: int
  tr_strerror :: string

text \<open>
  libcurl calls the write callback once for each buffer and stops the transfer with
  \<open>CURLE_WRITE_ERROR\<close> as soon as the callback returns a number different from the size
  of the buffer.
\<close>

fun deliver :: "string list \<Rightarrow> Worker \<Rightarrow> Scheduler \<Rightarrow> bool \<times> Worker \<times> Scheduler" where
  "deliver [] w s = (True, w, s)"
| "deliver (b # bs) w s =
     (let (n, w1, s1) = writeCallback b w s
      in if n = length b then deliver bs w1 s1 else (False, w1, s1))"

definition curl_easy_perform :: "Transfer \<Rightarrow> Worker \<Rightarrow> Scheduler \<Rightarrow> CURLcode \<times> Worker \<times> Scheduler" where
  "curl_easy_perform tr w s =
     (let (ok, w1, s1) = deliver (tr_buffers tr) w s
      in (if ok then tr_result tr else CURLE_WRITE_ERROR, w1, s1))"

text \<open>
  \<open>openTempFile(segment)\<close>; \<open>dir\<close> and \<open>fileName\<close> are the directory and the file name of
  the task's file path. Opening with \<open>WriteOnly\<close> alone empties the file, with \<open>Append\<close>
  it keeps what is there.
\<close>

definition tempFileName :: "string \<Rightarrow> string \<Rightarrow> SegmentId \<Rightarrow> string" where
  "tempFileName dir fileName sid = dir @ ''/.'' @ fileName @ ''.part'' @ decimal sid"

definition openTempFile :: "string \<Rightarrow> string \<Rightarrow> Transfer \<Rightarrow> nat \<Rightarrow> Worker \<Rightarrow> Scheduler
    \<Rightarrow> bool \<times> Worker \<times> Scheduler" where
  "openTempFile dir fileName tr p w s =
     (let seg = m_segments s ! p;
          seg1 = (if m_tempFilePath seg = []
                  then seg\<lparr>m_tempFilePath := tempFileName dir fileName (m_id seg)\<rparr> else seg);
          s1 = s\<lparr>m_segments := (m_segments s)[p := seg1]\<rparr>
      in if tr_openOk tr
         then (True,
               w\<lparr>m_tempFile :=
                    Some \<lparr>tf_bytes = (if 0 < downloadedBytes seg1 then tr_existing tr else []),
                          tf_room = tr_room tr\<rparr>\<rparr>,
               s1)
         else (False, w\<lparr>m_tempFile := None\<rparr>, s1))"

definition atSegment :: "nat \<Rightarrow> (Segment \<Rightarrow> Segment) \<Rightarrow> Scheduler \<Rightarrow> Scheduler" where
  "atSegment p f s = s\<lparr>m_segments := (m_segments s)[p := f (m_segments s ! p)]\<rparr>"

text \<open>
  \<open>downloadSegment(segment)\<close> for a non-null segment \<open>p\<close> and an initialised curl handle
  (\<open>run\<close> returns before its loop when \<open>initCurl\<close> fails, and \<open>configureCurl\<close> fails only on
  a null handle or segment).
\<close>

definition downloadSegment :: "string \<Rightarrow> string \<Rightarrow> Transfer \<Rightarrow> nat \<Rightarrow> Worker \<Rightarrow> Scheduler
    \<Rightarrow> bool \<times> Worker \<times> Scheduler" where
  "downloadSegment dir fileName tr p w s =
     (let (opened, w1, s1) = openTempFile dir fileName tr p w s
      in if opened
         then (let (result, w2, s2) = curl_easy_perform tr w1 s1;
                   w3 = w2\<lparr>m_tempFile := None\<rparr>;
                   seg = m_segments s2 ! p
               in if result = CURLE_OK
                  then (if downloadedBytes seg < m_endByte seg - m_startByte seg + 1
                        then (False, w3,
                              atSegment p (setState Failed \<circ> setLastError ''Incomplete download'') s2)
                        else (True, w3, s2))
                  else if result = CURLE_ABORTED_BY_CALLBACK \<and> m_shouldStop w3
                  then (False, w3, s2)
                  else if result = CURLE_ABORTED_BY_CALLBACK \<and> m_isPaused w3
                  then (False, w3, atSegment p (setState Paused) s2)
                  else (let error = handleCurlError result seg (tr_httpCode tr) (tr_strerror tr)
                        in (False, w3,
                            atSegment p (setState Failed \<circ> setLastError (message error)) s2)))
         else (False, w1, s1))"

text \<open>
  One pass through the body of the \<open>while (shouldContinue())\<close> loop of \<open>run\<close>, with what the
  loop does next: leave (\<open>Break\<close>), go round again (\<open>Continue\<close>), or stay blocked in
  \<open>waitWhilePaused\<close> until another thread resumes or stops the worker (\<open>Waiting\<close>).
  \<open>run_iterations n\<close> goes round at most \<open>n\<close> times.
\<close>

datatype LoopStep = Break | Continue | Waiting

definition run_iteration :: "string \<Rightarrow> string \<Rightarrow> Transfer \<Rightarrow> Worker \<Rightarrow> Scheduler
    \<Rightarrow> LoopStep \<times> Worker \<times> Scheduler" where
  "run_iteration dir fileName tr w s =
     (if m_shouldStop w then (Break, w, s)
      else if m_isPaused w then (Waiting, w, s)
      else (case acquireSegment (m_self w) s of
              (None, s1) \<Rightarrow>
                if waitForWork s1 then (Continue, w, s1)
                else if isAllComplete s1 then (Break, w, s1)
                else (Continue, w, s1)
            | (Some p, s1) \<Rightarrow>
                (let w1 = w\<lparr>m_currentSegment := Some p, m_segmentBytesDownloaded := 0\<rparr>;
                     (success, w2, s2) = downloadSegment dir fileName tr p w1 s1;
                     w3 = w2\<lparr>m_currentSegment := None\<rparr>;
                     s3 = (if success then atSegment p (setState Completed) s2 else s2);
                     s4 = releaseSegment (m_self w) p s3
                 in if success then (Continue, w3, s4)
                    else if m_shouldStop w3 then (Break, w3, s4)
                    else (Continue, w3, s4))))"

fun run_iterations :: "nat \<Rightarrow> string \<Rightarrow> string \<Rightarrow> Transfer \<Rightarrow> Worker \<Rightarrow> Scheduler
    \<Rightarrow> LoopStep \<times> Worker \<times> Scheduler" where
  "run_iterations 0 dir fileName tr w s = (Continue, w, s)"
| "run_iterations (Suc n) dir fileName tr w s =
     (case run_iteration dir fileName tr w s of
        (Continue, w1, s1) \<Rightarrow> run_iterations n dir fileName tr w1 s1
      | r \<Rightarrow> r)"


section \<open>Download task: merging the segments (src/engine/DownloadTask.cpp)\<close>

text \<open>
  The file system as the merge sees it: the content of each file that exists, for a
  temp file the offset at which reading it fails (a failing \<open>QFile::read\<close> returns \<open>-1\<close>),
  the paths that cannot be opened for writing, and the room left on the device.
  \<open>file_read\<close> is the result of \<open>tempFile.read(buffer, maxlen)\<close> at offset \<open>pos\<close>,
  \<open>device_write\<close> the result of \<open>outputFile.write(buffer, n)\<close>.
\<close>

record FileSystem =
  fs_files :: "string \<Rightarrow> string option"
  fs_readFault :: "string \<Rightarrow> nat option"
  fs_unwritable :: "string list"
  fs_room :: nat

definition file_read :: "string \<Rightarrow> nat option \<Rightarrow> nat \<Rightarrow> nat \<Rightarrow> int" where
  "file_read bytes fault pos maxlen =
     (case fault of
        None \<Rightarrow> int (min maxlen (length bytes - pos))
      | Some k \<Rightarrow> if k \<le> pos then - 1
                  else int (min maxlen (min (length bytes - pos) (k - pos))))"

definition device_write :: "nat \<Rightarrow> nat \<Rightarrow> int" where
  "device_write n room = (if n \<le> room then int n else int room)"

text \<open>
  The loop \<open>while (!tempFile.atEnd())\<close> that copies one temp file: \<open>pos\<close> is the read
  position, \<open>out\<close> the content of the output file so far. The result says whether the
  loop ended without the write error that makes \<open>mergeSegments\<close> return false. The test
  \<open>written != read\<close> is taken on \<open>n = nat rd\<close>, which is \<open>read\<close> in the branch where
  \<open>read\<close> is positive.
\<close>

function copyLoop :: "string \<Rightarrow> nat option \<Rightarrow> nat \<Rightarrow> string \<Rightarrow> nat \<Rightarrow> bool \<times> string \<times> nat" where
  "copyLoop bytes fault pos out room =
     (if pos < length bytes
      then (let rd = file_read bytes fault pos FILE_BUFFER_SIZE
            in if rd \<le> 0 then (True, out, room)
               else (let n = nat rd;
                         buffer = take n (drop pos bytes)
                     in if device_write n room = int n
                        then copyLoop bytes fault (pos + n) (out @ buffer) (room - n)
                        else (False, out @ take room buffer, 0)))
      else (True, out, room))"
  by pat_completeness auto
termination
  by (relation "measure (\<lambda>(bytes, fault, pos, out, room). length bytes - pos)") auto

declare copyLoop.simps [simp del]

text \<open>
  The loop over the sorted segments. The output file holds \<open>out\<close> when the loop ends;
  \<open>QFile::remove(m_filePath)\<close> takes it away on the two failure paths.
\<close>

fun mergeLoop :: "string \<Rightarrow> Segment list \<Rightarrow> string \<Rightarrow> FileSystem \<Rightarrow> bool \<times> FileSystem" where
  "mergeLoop filePath [] out fs = (True, fs\<lparr>fs_files := (fs_files fs)(filePath \<mapsto> out)\<rparr>)"
| "mergeLoop filePath (seg # segs) out fs =
     (case fs_files fs (m_tempFilePath seg) of
        None \<Rightarrow> (False, fs\<lparr>fs_files := (fs_files fs)(filePath := None)\<rparr>)
      | Some bytes \<Rightarrow>
          (case copyLoop bytes (fs_readFault fs (m_tempFilePath seg)) 0 out (fs_room fs) of
             (True, out1, room1) \<Rightarrow> mergeLoop filePath segs out1 (fs\<lparr>fs_room := room1\<rparr>)
           | (False, out1, room1) \<Rightarrow>
               (False, fs\<lparr>fs_files := (fs_files fs)(filePath := None), fs_room := room1\<rparr>)))"

text \<open>
  \<open>mergeSegments()\<close> on the segments of the scheduler. Opening the output file with
  \<open>WriteOnly\<close> empties it. \<open>std::sort\<close> by \<open>startByte\<close> is \<open>sort_key\<close>; the two differ at most
  in the order of segments with equal start, which \<open>std::sort\<close> leaves open.
\<close>

definition mergeSegments :: "string \<Rightarrow> Segment list \<Rightarrow> FileSystem \<Rightarrow> bool \<times> FileSystem" where
  "mergeSegments filePath allSegments fs =
     (if filePath \<in> set (fs_unwritable fs) then (False, fs)
      else mergeLoop filePath (sort_key m_startByte allSegments) []
             (fs\<lparr>fs_files := (fs_files fs)(filePath \<mapsto> [])\<rparr>))"

text \<open>
  The members of \<open>DownloadTask\<close> that the merge and the manager read, and the signals a
  task emits. The task id is a \<open>QUuid\<close>, modelled as a number with \<open>0\<close> for the null id.
\<close>

type_synonym TaskId = nat

record DownloadTask =
  task_id :: TaskId
  task_url :: string
  task_filePath :: string
  task_state :: DownloadState
  task_totalSize :: ByteCount
  task_downloadedBytes :: ByteCount
  task_lastError :: DownloadError
  task_capabilitiesValid :: bool

datatype TaskSignal =
  stateChanged DownloadState | errorChanged | failed DownloadError | completed
  | needsPersistence

definition task_setState ::
  "DownloadState \<Rightarrow> DownloadTask \<times> TaskSignal list \<Rightarrow> DownloadTask \<times> TaskSignal list" where
  "task_setState newState ts =
     (case ts of (t, sigs) \<Rightarrow>
        (t\<lparr>task_state := newState\<rparr>,
         if task_state t = newState then sigs else sigs @ [stateChanged newState]))"

fun cleanupTempFiles :: "Segment list \<Rightarrow> FileSystem \<Rightarrow> FileSystem" where
  "cleanupTempFiles [] fs = fs"
| "cleanupTempFiles (seg # segs) fs =
     cleanupTempFiles segs
       (if m_tempFilePath seg = [] then fs
        else fs\<lparr>fs_files := (fs_files fs)(m_tempFilePath seg := None)\<rparr>)"

text \<open>
  \<open>onAllSegmentsCompleted()\<close>. The result of \<open>verifyFile\<close> only decides whether a warning
  is logged, so the call is left out; so are the progress timer and the end time.
\<close>

definition onAllSegmentsCompleted ::
  "Segment list \<Rightarrow> DownloadTask \<Rightarrow> FileSystem \<Rightarrow> DownloadTask \<times> TaskSignal list \<times> FileSystem" where
  "onAllSegmentsCompleted allSegments t fs =
     (let (t1, sigs1) = task_setState Merging (t, []);
          (merged, fs1) = mergeSegments (task_filePath t1) allSegments fs
      in if merged
         then (let (t2, sigs2) = task_setState Verifying (t1, sigs1);
                   fs2 = cleanupTempFiles allSegments fs1;
                   (t3, sigs3) = task_setState DlCompleted (t2, sigs2)
               in (t3, sigs3 @ [completed, needsPersistence], fs2))
         else (let error = \<lparr>category = FileSystem, errorCode = 0,
                              message = ''Failed to merge segment files'', details = [],
                              retryCount = 0\<rparr>;
                   t2 = t1\<lparr>task_lastError := error\<rparr>;
                   (t3, sigs3) = task_setState DlFailed (t2, sigs1 @ [errorChanged])
               in (t3, sigs3 @ [failed error], fs1)))"


section \<open>Download manager (src/engine/DownloadManager.cpp)\<close>

text \<open>
  A row of the persistence layer, as \<open>loadAllTasks\<close> returns it (of \<open>TaskData\<close> the
  id, the URL, the file path, the sizes and the state), and the manager. The map
  \<open>m_tasks\<close> is a \<open>std::map\<close>: a list of pairs kept in the order of the keys, which is the
  order in which the loops of the source visit it. \<open>m_saved\<close> logs the calls of
  \<open>saveTask\<close> (a persistence manager is present), \<open>m_emitted\<close> the manager's signals. The
  global speed is a floating-point sum of wall-clock rates and is left out.
\<close>

record TaskData =
  td_id :: TaskId
  td_url :: string
  td_filePath :: string
  td_totalSize :: ByteCount
  td_downloadedSize :: ByteCount
  td_state :: DownloadState

datatype ManagerSignal =
  downloadAdded TaskId | totalCountChanged | queueCountChanged | activeCountChanged

record DownloadManager =
  m_tasks :: "(TaskId \<times> DownloadTask) list"
  m_maxConcurrent :: int
  m_defaultDir :: string
  m_sessionBytes :: ByteCount
  m_activeCount :: int
  m_queuedCount :: int
  m_completedCount :: int
  m_saved :: "TaskData list"
  m_emitted :: "ManagerSignal list"

text \<open>
  The manager as its constructor leaves it; the default directory, which the
  constructor asks of the platform, is the argument.
\<close>

definition DownloadManager_new :: "string \<Rightarrow> DownloadManager" where
  "DownloadManager_new defaultDir =
     \<lparr>m_tasks = [], m_maxConcurrent = 3, m_defaultDir = defaultDir, m_sessionBytes = 0,
      m_activeCount = 0, m_queuedCount = 0, m_completedCount = 0, m_saved = [],
      m_emitted = []\<rparr>"

text \<open>
  The constructors \<open>DownloadTask(url, destPath)\<close> and \<open>DownloadTask(id, url, destPath)\<close>
  with the member defaults of DownloadTask.h: state \<open>Queued\<close>, total size \<open>-1\<close>, no byte
  downloaded, no capabilities. The first draws its id from \<open>QUuid::createUuid()\<close>, which
  is the argument \<open>tid\<close> here. The file path, which the constructor puts together from
  the destination and the file name of the URL by asking the file system whether the
  destination is a directory, is the destination as given: no operation of the manager
  reads it.
\<close>

definition DownloadTask_new :: "TaskId \<Rightarrow> string \<Rightarrow> string \<Rightarrow> DownloadTask" where
  "DownloadTask_new tid url destPath =
     \<lparr>task_id = tid, task_url = url, task_filePath = destPath, task_state = Queued,
      task_totalSize = - 1, task_downloadedBytes = 0,
      task_lastError = \<lparr>category = NoError, errorCode = 0, message = [], details = [],
                         retryCount = 0\<rparr>,
      task_capabilitiesValid = False\<rparr>"

text \<open>\<open>m_tasks[k] = v\<close>: the entry of \<open>k\<close> is replaced, or added at its place in key order.\<close>

fun map_store :: "TaskId \<Rightarrow> DownloadTask \<Rightarrow> (TaskId \<times> DownloadTask) list
    \<Rightarrow> (TaskId \<times> DownloadTask) list" where
  "map_store k v [] = [(k, v)]"
| "map_store k v ((k', v') # kvs) =
     (if k < k' then (k, v) # (k', v') # kvs
      else if k = k' then (k, v) # kvs
      else (k', v') # map_store k v kvs)"

fun findByUrl :: "(TaskId \<times> DownloadTask) list \<Rightarrow> string \<Rightarrow> TaskId option" where
  "findByUrl [] url = None"
| "findByUrl ((tid, task) # kvs) url =
     (if task_url task = url then Some tid else findByUrl kvs url)"

fun countState :: "(DownloadState \<Rightarrow> bool) \<Rightarrow> (TaskId \<times> DownloadTask) list \<Rightarrow> int" where
  "countState P [] = 0"
| "countState P ((tid, task) # kvs) =
     (if P (task_state task) then 1 else 0) + countState P kvs"

definition updateCounts :: "DownloadManager \<Rightarrow> DownloadManager" where
  "updateCounts m =
     m\<lparr>m_activeCount :=
         countState (\<lambda>st. st = Downloading \<or> st = Probing \<or> st = Merging \<or> st = Verifying)
           (m_tasks m),
       m_queuedCount := countState (\<lambda>st. st = Queued) (m_tasks m),
       m_completedCount := countState (\<lambda>st. st = DlCompleted) (m_tasks m)\<rparr>"

definition canStartMore :: "DownloadManager \<Rightarrow> bool" where
  "canStartMore m = (m_activeCount m < m_maxConcurrent m)"

definition saveTask :: "DownloadTask \<Rightarrow> DownloadManager \<Rightarrow> DownloadManager" where
  "saveTask t m =
     m\<lparr>m_saved := m_saved m
         @ [\<lparr>td_id = task_id t, td_url = task_url t, td_filePath = task_filePath t,
              td_totalSize = task_totalSize t, td_downloadedSize = task_downloadedBytes t,
              td_state = task_state t\<rparr>]\<rparr>"

text \<open>
  \<open>DownloadTask::start()\<close> as far as the manager sees it, the state of the task: a task
  with known capabilities goes to \<open>Downloading\<close> (\<open>startWorkers\<close>), any other to \<open>Probing\<close>
  (\<open>probeServer\<close>). The manager's slot \<open>onTaskStateChanged\<close> runs on each change of state;
  \<open>startTask\<close> is the call \<open>m_tasks[id]->start()\<close> with that slot. Of the slot's cases only
  those that \<open>start\<close> can raise are written out.
\<close>

definition task_start :: "DownloadTask \<Rightarrow> DownloadTask" where
  "task_start t =
     (if task_state t = Downloading then t
      else if task_state t = DlCompleted then t
      else if task_capabilitiesValid t then t\<lparr>task_state := Downloading\<rparr>
      else t\<lparr>task_state := Probing\<rparr>)"

definition onTaskStateChanged :: "DownloadState \<Rightarrow> DownloadManager \<Rightarrow> DownloadManager" where
  "onTaskStateChanged newState m =
     (let m1 = updateCounts m
      in if newState = Downloading then m1\<lparr>m_emitted := m_emitted m1 @ [activeCountChanged]\<rparr>
         else m1)"

definition startTask :: "TaskId \<Rightarrow> DownloadManager \<Rightarrow> DownloadManager" where
  "startTask tid m =
     (case map_of (m_tasks m) tid of
        None \<Rightarrow> m
      | Some t \<Rightarrow>
          (let t1 = task_start t;
               m1 = m\<lparr>m_tasks := map_store tid t1 (m_tasks m)\<rparr>
           in if task_state t1 = task_state t then m1
              else onTaskStateChanged (task_state t1) m1))"

text \<open>
  \<open>addDownload(url, destPath, startImmediately)\<close>. \<open>isValid\<close> is \<open>QUrl::isValid\<close> and \<open>newId\<close>
  the id that the constructor of the new task draws. The result is the returned id
  (\<open>0\<close> for the null id \<open>TaskId{}\<close>) and the manager afterwards.
\<close>

definition addDownload ::
  "(string \<Rightarrow> bool) \<Rightarrow> TaskId \<Rightarrow> string \<Rightarrow> string \<Rightarrow> bool \<Rightarrow> DownloadManager
     \<Rightarrow> TaskId \<times> DownloadManager" where
  "addDownload isValid newId url destPath startImmediately m =
     (if isValid url
      then (case findByUrl (m_tasks m) url of
              Some existing \<Rightarrow> (existing, m)
            | None \<Rightarrow>
                (let dest = (if destPath = [] then m_defaultDir m else destPath);
                     task = DownloadTask_new newId url dest;
                     m1 = m\<lparr>m_tasks := map_store newId task (m_tasks m)\<rparr>;
                     m2 = updateCounts m1;
                     m3 = m2\<lparr>m_emitted := m_emitted m2
                            @ [downloadAdded newId, totalCountChanged, queueCountChanged]\<rparr>;
                     m4 = saveTask task m3;
                     m5 = (if startImmediately \<and> canStartMore m4 then startTask newId m4
                           else m4)
                 in (newId, m5)))
      else (0, m))"

text \<open>
  \<open>loadState()\<close> on the rows that \<open>loadAllTasks\<close> returns: each row gives a task built by
  the constructor from the row's id, URL and file path, and nothing else of the row is
  copied into the task.
\<close>

fun loadLoop :: "TaskData list \<Rightarrow> (TaskId \<times> DownloadTask) list \<Rightarrow> (TaskId \<times> DownloadTask) list" where
  "loadLoop [] tasks = tasks"
| "loadLoop (row # rows) tasks =
     loadLoop rows
       (map_store (td_id row) (DownloadTask_new (td_id row) (td_url row) (td_filePath row)) tasks)"

definition loadState :: "TaskData list \<Rightarrow> DownloadManager \<Rightarrow> DownloadManager" where
  "loadState savedTasks m = updateCounts (m\<lparr>m_tasks := loadLoop savedTasks (m_tasks m)\<rparr>)"

text \<open>
  \<open>onSpeedUpdateTimer()\<close>: the loop adds \<open>downloadedSize()\<close> of every task to the local
  \<open>sessionBytes\<close>, which starts at \<open>0\<close> and is then stored in \<open>m_sessionBytes\<close>.
\<close>

fun sumDownloaded :: "(TaskId \<times> DownloadTask) list \<Rightarrow> ByteCount \<Rightarrow> ByteCount" where
  "sumDownloaded [] sessionBytes = sessionBytes"
| "sumDownloaded ((tid, task) # kvs) sessionBytes =
     sumDownloaded kvs (sessionBytes + task_downloadedBytes task)"

definition onSpeedUpdateTimer :: "DownloadManager \<Rightarrow> DownloadManager" where
  "onSpeedUpdateTimer m = m\<lparr>m_sessionBytes := sumDownloaded (m_tasks m) 0\<rparr>"

definition sessionBytesDownloaded :: "DownloadManager \<Rightarrow> ByteCount" where
  "sessionBytesDownloaded m = m_sessionBytes m"


section \<open>Example states\<close>

text \<open>
  A transfer that fails with \<open>CURLE_RECV_ERROR\<close> before any byte arrives, and six passes
  of a worker's loop over a scheduler whose only segment \<open>[0, 999]\<close> meets that transfer
  each time.
\<close>

definition failing :: Transfer where
  "failing = \<lparr>tr_existing = [], tr_openOk = True, tr_room = 1000000, tr_buffers = [],
     tr_result = CURLE_RECV_ERROR, tr_httpCode = 0,
     tr_strerror = ''Failure when receiving data from the peer''\<rparr>"

definition retry_example :: "LoopStep \<times> Worker \<times> Scheduler" where
  "retry_example =
     run_iterations 6 ''/downloads'' ''file.bin'' failing (SegmentWorker_new 1)
       (snd (initializeSegments 1000 1 SegmentScheduler_new))"

text \<open>
  The server answers the GET for the only segment \<open>[0, 999]\<close> with the status 404 and a
  body of nine bytes; one pass of the worker's loop over that transfer.
\<close>

definition not_found :: Transfer where
  "not_found = \<lparr>tr_existing = [], tr_openOk = True, tr_room = 1000000,
     tr_buffers = [''Not Found''], tr_result = CURLE_OK, tr_httpCode = 404,
     tr_strerror = ''No error''\<rparr>"

definition not_found_example :: "LoopStep \<times> Worker \<times> Scheduler" where
  "not_found_example =
     run_iteration ''/downloads'' ''file.bin'' not_found (SegmentWorker_new 1)
       (snd (initializeSegments 1000 1 SegmentScheduler_new))"

text \<open>
  Worker 1 downloads the segment \<open>[0, 4194303]\<close> of \<open>steal_example\<close>. Worker 7 steals: the
  segment's end becomes \<open>2097151\<close>. Worker 1, whose transfer asked for the whole range,
  has then received and written \<open>2097148\<close> bytes.
\<close>

definition earlier_bytes :: string where
  "earlier_bytes = replicate 2097148 (CHR ''x'')"

definition overrun_scheduler :: Scheduler where
  "overrun_scheduler = call (CallAdvance 0 2097148) (snd (stealWork 7 steal_example))"

definition overrun_worker :: Worker where
  "overrun_worker =
     (SegmentWorker_new 1)
       \<lparr>m_currentSegment := Some 0,
        m_tempFile := Some \<lparr>tf_bytes = earlier_bytes, tf_room = 1048576\<rparr>,
        m_segmentBytesDownloaded := 2097148, m_totalBytesDownloaded := 2097148\<rparr>"

text \<open>
  Two completed segments of an 8-byte file with their temp files, in the order a split
  leaves them in the vector, and the task that merges them; a file system in which
  reading the first temp file fails after two bytes, and one with room for six bytes.
\<close>

definition merge_segments_example :: "Segment list" where
  "merge_segments_example =
     [(Segment_new 1 4 7)\<lparr>m_currentByte := 8, m_state := Completed, m_tempFilePath := ''/d/.f.part1''\<rparr>,
      (Segment_new 0 0 3)\<lparr>m_currentByte := 4, m_state := Completed, m_tempFilePath := ''/d/.f.part0''\<rparr>]"

definition merge_task_example :: DownloadTask where
  "merge_task_example =
     \<lparr>task_id = 1, task_url = ''http://host/f'', task_filePath = ''/d/f'',
      task_state = Downloading, task_totalSize = 8, task_downloadedBytes = 8,
      task_lastError = \<lparr>category = NoError, errorCode = 0, message = [], details = [],
                         retryCount = 0\<rparr>,
      task_capabilitiesValid = True\<rparr>"

definition read_fault_example :: FileSystem where
  "read_fault_example =
     \<lparr>fs_files = [''/d/.f.part0'' \<mapsto> ''abcd'', ''/d/.f.part1'' \<mapsto> ''efgh''],
      fs_readFault = [''/d/.f.part0'' \<mapsto> 2],
      fs_unwritable = [], fs_room = 1000\<rparr>"

definition disk_full_example :: FileSystem where
  "disk_full_example =
     \<lparr>fs_files = [''/d/.f.part0'' \<mapsto> ''abcd'', ''/d/.f.part1'' \<mapsto> ''efgh''],
      fs_readFault = Map.empty,
      fs_unwritable = [], fs_room = 6\<rparr>"

text \<open>
  A stored row of a task that was completed in an earlier run with 1000 bytes, and a
  manager that holds one completed task.
\<close>

definition completed_row :: TaskData where
  "completed_row =
     \<lparr>td_id = 17, td_url = ''http://host/old.bin'', td_filePath = ''/downloads/old.bin'',
      td_totalSize = 1000, td_downloadedSize = 1000, td_state = DlCompleted\<rparr>"

definition manager_example :: DownloadManager where
  "manager_example =
     (DownloadManager_new ''/downloads'')
       \<lparr>m_tasks := [(5, (DownloadTask_new 5 ''http://host/a.bin'' ''/downloads/a.bin'')
                          \<lparr>task_state := DlCompleted, task_downloadedBytes := 10\<rparr>)]\<rparr>"


section \<open>Properties of the scheduler\<close>

lemma chain_le: "chain a xs z \<Longrightarrow> a - 1 \<le> z"
proof (induction xs arbitrary: a)
  case Nil
  then show ?case by simp
next
  case (Cons x xs)
  from Cons.prems have "a - 1 \<le> m_endByte x" and "chain (m_endByte x + 1) xs z" by auto
  with Cons.IH[of "m_endByte x + 1"] show ?case by simp
qed

lemma chain_covering:
  "chain a xs z \<Longrightarrow> covering xs b = (if a \<le> b \<and> b \<le> z then 1 else 0)"
proof (induction xs arbitrary: a)
  case Nil
  then show ?case by (simp add: covering_def)
next
  case (Cons x xs)
  from Cons.prems have st: "m_startByte x = a" and le: "a - 1 \<le> m_endByte x"
    and ch: "chain (m_endByte x + 1) xs z" by auto
  from chain_le[OF ch] have "m_endByte x \<le> z" by simp
  with Cons.IH[OF ch] st le show ?case
    by (auto simp: covering_def)
qed

lemma chain_sum: "chain a xs z \<Longrightarrow> sum_list (map totalSize xs) = z - a + 1"
  by (induction xs arbitrary: a) (auto simp: totalSize_def)

lemma chain_partitions: "chain 0 xs (totalSz - 1) \<Longrightarrow> partitions xs totalSz"
  unfolding partitions_def
  by (auto simp: chain_covering chain_sum)

lemma initLoop_stop: "\<not> i < n \<Longrightarrow> initLoop i n sz r c s = s"
  by (subst initLoop.simps) simp

lemma initLoop_step:
  "i < n \<Longrightarrow>
   initLoop i n sz r c s =
     initLoop (i + 1) n sz r (c + (if i = n - 1 then sz + r else sz))
       (s\<lparr>m_nextSegmentId := (m_nextSegmentId s + 1) mod 2 ^ 32,
          m_segments := m_segments s
            @ [Segment_new (m_nextSegmentId s) c (c + (if i = n - 1 then sz + r else sz) - 1)],
          m_pendingQueue := m_pendingQueue s @ [length (m_segments s)]\<rparr>)"
  by (subst initLoop.simps) (simp add: Let_def nextSegmentId_def)

lemma initLoop_segments:
  assumes "0 \<le> sz" "0 \<le> r"
  shows "i \<le> n \<Longrightarrow> \<exists>new. m_segments (initLoop i n sz r c s) = m_segments s @ new
           \<and> length new = n - i
           \<and> chain c new (if i < n then c + int (n - i) * sz + r - 1 else c - 1)
           \<and> (\<forall>k < n - i. totalSize (new ! k) = (if i + k = n - 1 then sz + r else sz))"
proof (induction "n - i" arbitrary: i c s)
  case 0
  then have "\<not> i < n" by simp
  then show ?case by (simp add: initLoop_stop)
next
  case (Suc d)
  then have lt: "i < n" by simp
  define this where "this = (if i = n - 1 then sz + r else sz)"
  define seg where "seg = Segment_new (m_nextSegmentId s) c (c + this - 1)"
  define s2 where "s2 = s\<lparr>m_nextSegmentId := (m_nextSegmentId s + 1) mod 2 ^ 32,
        m_segments := m_segments s @ [seg],
        m_pendingQueue := m_pendingQueue s @ [length (m_segments s)]\<rparr>"
  have step: "initLoop i n sz r c s = initLoop (i + 1) n sz r (c + this) s2"
    using initLoop_step[OF lt] by (simp add: this_def seg_def s2_def)
  have "d = n - (i + 1)" using Suc.hyps(2) by simp
  moreover have "i + 1 \<le> n" using lt by simp
  ultimately obtain new where
      n1: "m_segments (initLoop (i + 1) n sz r (c + this) s2) = m_segments s2 @ new"
      and n2: "length new = n - (i + 1)"
      and n3: "chain (c + this) new (if i + 1 < n then (c + this) + int (n - (i + 1)) * sz + r - 1 else (c + this) - 1)"
      and n4: "\<forall>k < n - (i + 1). totalSize (new ! k) = (if (i + 1) + k = n - 1 then sz + r else sz)"
    using Suc.hyps(1)[of "i + 1" "c + this" s2] by blast
  have this0: "0 \<le> this" using assms by (simp add: this_def)
  have a: "m_segments (initLoop i n sz r c s) = m_segments s @ (seg # new)"
    using step n1 by (simp add: s2_def)
  have b: "length (seg # new) = n - i" using n2 lt by simp
  have c': "chain c (seg # new) (c + int (n - i) * sz + r - 1)"
  proof (cases "i + 1 < n")
    case True
    then have "i \<noteq> n - 1" by arith
    then have "this = sz" by (simp add: this_def)
    moreover have "int (n - i) = int (n - (i + 1)) + 1" using True by simp
    ultimately show ?thesis using n3 True this0
      by (simp add: seg_def Segment_new_def algebra_simps)
  next
    case False
    with lt have e: "i = n - 1" "n - i = 1" by simp_all
    then have "this = sz + r" by (simp add: this_def)
    then show ?thesis using n3 False e this0
      by (simp add: seg_def Segment_new_def add.assoc)
  qed
  have d: "\<forall>k < n - i. totalSize ((seg # new) ! k) = (if i + k = n - 1 then sz + r else sz)"
  proof (intro allI impI)
    fix k assume "k < n - i"
    show "totalSize ((seg # new) ! k) = (if i + k = n - 1 then sz + r else sz)"
    proof (cases k)
      case 0
      then show ?thesis by (simp add: seg_def Segment_new_def totalSize_def this_def)
    next
      case (Suc k')
      with \<open>k < n - i\<close> have "k' < n - (i + 1)" by simp
      with n4 have "totalSize (new ! k') = (if (i + 1) + k' = n - 1 then sz + r else sz)" by blast
      then show ?thesis using Suc by simp
    qed
  qed
  have c'': "chain c (seg # new) (if i < n then c + int (n - i) * sz + r - 1 else c - 1)"
    using c' lt by (simp only: if_True)
  show ?case using a b c'' d by blast
qed

lemma covering_append: "covering (xs @ ys) b = covering xs b + covering ys b"
  by (simp add: covering_def)

lemma covering_update:
  "p < length xs \<Longrightarrow>
   covering (xs[p := d]) b + covering [xs ! p] b = covering xs b + covering [d] b"
proof (induction xs arbitrary: p)
  case Nil
  then show ?case by simp
next
  case (Cons x xs)
  show ?case
  proof (cases p)
    case 0
    then show ?thesis by (simp add: covering_def)
  next
    case (Suc q)
    with Cons.prems have "q < length xs" by simp
    from Cons.IH[OF this] Suc show ?thesis by (auto simp: covering_def)
  qed
qed

lemma sum_update:
  "p < length xs \<Longrightarrow>
   sum_list (map totalSize (xs[p := d])) + totalSize (xs ! p)
     = sum_list (map totalSize xs) + totalSize d"
proof (induction xs arbitrary: p)
  case Nil
  then show ?case by simp
next
  case (Cons x xs)
  show ?case
  proof (cases p)
    case 0
    then show ?thesis by simp
  next
    case (Suc q)
    with Cons.prems have "q < length xs" by simp
    from Cons.IH[OF this] Suc show ?thesis by simp
  qed
qed

lemma split_partitions:
  assumes part: "partitions xs totalSz" and p: "p < length xs"
    and le: "m_startByte (xs ! p) \<le> m_currentByte (xs ! p)"
    and sp: "split newId (xs ! p) = Some (donor, newSegment)"
    and same: "m_startByte n' = m_startByte newSegment" "m_endByte n' = m_endByte newSegment"
  shows "partitions (xs[p := donor] @ [n']) totalSz"
proof -
  define seg where "seg = xs ! p"
  define mid where "mid = m_currentByte seg + remainingBytes seg div 2"
  from sp have spl: "isSplittable MIN_STEAL_SIZE seg"
    and d: "donor = seg\<lparr>m_endByte := mid - 1\<rparr>"
    and n: "newSegment = Segment_new newId mid (m_endByte seg)"
    by (auto simp: split_def seg_def mid_def Let_def split: if_splits)
  from spl have rem: "2 \<le> remainingBytes seg"
    by (simp add: isSplittable_def MIN_STEAL_SIZE_def)
  then have m1: "m_currentByte seg < mid" and m2: "mid \<le> m_endByte seg"
    by (auto simp: mid_def remainingBytes_def)
  from le have m0: "m_startByte seg \<le> mid" using m1 by (simp add: seg_def)
  have cov1: "covering [donor] b + covering [n'] b = covering [seg] b" for b
    using m0 m2 by (auto simp: covering_def d n same Segment_new_def)
  have "covering (xs[p := donor] @ [n']) b = covering xs b" for b
    using covering_update[OF p, of donor b] cov1[of b]
    by (simp add: covering_append seg_def)
  moreover have "totalSize donor + totalSize n' = totalSize seg"
    by (simp add: totalSize_def d n same Segment_new_def)
  then have "sum_list (map totalSize (xs[p := donor] @ [n'])) = sum_list (map totalSize xs)"
    using sum_update[OF p, of donor] by (simp add: seg_def)
  ultimately show ?thesis using part by (simp add: partitions_def)
qed

lemma findLargestLoop_sound:
  assumes "findLargestLoop segs ps largest maxR = Some d"
    and "case largest of None \<Rightarrow> maxR = 0
         | Some l \<Rightarrow> l \<in> A \<and> isSplittable MIN_STEAL_SIZE (segs ! l)
                      \<and> maxR = remainingBytes (segs ! l)"
    and "set ps \<subseteq> A"
  shows "d \<in> A \<and> isSplittable MIN_STEAL_SIZE (segs ! d) \<and> maxR \<le> remainingBytes (segs ! d)
         \<and> list_all (\<lambda>q. remainingBytes (segs ! q) \<le> remainingBytes (segs ! d)) ps"
  using assms
proof (induction ps arbitrary: largest maxR)
  case Nil
  then show ?case by (auto split: option.splits)
next
  case (Cons p ps)
  show ?case
  proof (cases "remainingBytes (segs ! p) > maxR \<and> isSplittable MIN_STEAL_SIZE (segs ! p)")
    case True
    then have "findLargestLoop segs ps (Some p) (remainingBytes (segs ! p)) = Some d"
      using Cons.prems(1) by (simp add: Let_def)
    from Cons.IH[OF this] Cons.prems(3) True show ?thesis by auto
  next
    case False
    then have eq: "findLargestLoop segs ps largest maxR = Some d"
      using Cons.prems(1) by (auto simp: Let_def)
    from Cons.IH[OF eq Cons.prems(2)] Cons.prems(3)
    have r: "d \<in> A" "isSplittable MIN_STEAL_SIZE (segs ! d)" "maxR \<le> remainingBytes (segs ! d)"
      "list_all (\<lambda>q. remainingBytes (segs ! q) \<le> remainingBytes (segs ! d)) ps" by auto
    have "remainingBytes (segs ! p) \<le> remainingBytes (segs ! d)"
    proof (cases "isSplittable MIN_STEAL_SIZE (segs ! p)")
      case True
      with False have "remainingBytes (segs ! p) \<le> maxR" by simp
      with r(3) show ?thesis by simp
    next
      case False
      with r(2) show ?thesis by (simp add: isSplittable_def)
    qed
    with r show ?thesis by simp
  qed
qed

lemma findLargestLoop_None:
  "findLargestLoop segs ps None 0 = None
     \<Longrightarrow> list_all (\<lambda>q. \<not> isSplittable MIN_STEAL_SIZE (segs ! q)) ps"
proof (induction ps)
  case Nil
  then show ?case by simp
next
  case (Cons p ps)
  show ?case
  proof (cases "remainingBytes (segs ! p) > 0 \<and> isSplittable MIN_STEAL_SIZE (segs ! p)")
    case True
    then have "findLargestLoop segs ps (Some p) (remainingBytes (segs ! p)) = None"
      using Cons.prems by (simp add: Let_def)
    moreover have "findLargestLoop segs ps (Some p) m \<noteq> None" for m
      by (induction ps arbitrary: p m) (auto simp: Let_def)
    ultimately show ?thesis by simp
  next
    case False
    then have "findLargestLoop segs ps None 0 = None"
      using Cons.prems by (auto simp: Let_def)
    from Cons.IH[OF this] False show ?thesis
      by (auto simp: isSplittable_def MIN_STEAL_SIZE_def)
  qed
qed

lemma findLargest_Some:
  assumes "findLargestActiveSegment s = Some d"
  shows "d \<in> set (m_activeSegments s) \<and> isSplittable MIN_STEAL_SIZE (m_segments s ! d)
         \<and> list_all (\<lambda>q. remainingBytes (m_segments s ! q) \<le> remainingBytes (m_segments s ! d))
              (m_activeSegments s)"
  using findLargestLoop_sound[of "m_segments s" "m_activeSegments s" None 0 d
      "set (m_activeSegments s)"] assms
  by (simp add: findLargestActiveSegment_def)

lemma findLargest_None:
  "findLargestActiveSegment s = None
     \<Longrightarrow> list_all (\<lambda>q. \<not> isSplittable MIN_STEAL_SIZE (m_segments s ! q)) (m_activeSegments s)"
  by (simp add: findLargestActiveSegment_def findLargestLoop_None)

lemma findLargest_exists:
  assumes "p \<in> set (m_activeSegments s)" "isSplittable MIN_STEAL_SIZE (m_segments s ! p)"
  shows "\<exists>d. findLargestActiveSegment s = Some d"
proof (cases "findLargestActiveSegment s")
  case None
  from findLargest_None[OF this] assms show ?thesis by (simp add: list_all_iff)
next
  case (Some d)
  then show ?thesis by simp
qed

lemma stealWork_Some:
  assumes "\<not> m_paused s" "\<not> m_cancelled s" "findLargestActiveSegment s = Some d"
  shows "stealWork worker s = (Some (length (m_segments s)), stolen worker d s)"
proof -
  from findLargest_Some[OF assms(3)] have sp: "isSplittable MIN_STEAL_SIZE (m_segments s ! d)"
    by simp
  show ?thesis
    using assms sp
    by (simp add: stealWork_def nextSegmentId_def split_def Let_def stolen_def emit_def
        Segment_new_def setState_def)
qed

lemma stealWork_None:
  assumes "m_paused s \<or> m_cancelled s \<or> findLargestActiveSegment s = None"
  shows "stealWork worker s = (None, s)"
  using assms by (auto simp: stealWork_def)

lemma partitions_update_same:
  assumes "m_startByte d = m_startByte (xs ! p)" "m_endByte d = m_endByte (xs ! p)"
  shows "partitions (xs[p := d]) totalSz = partitions xs totalSz"
proof (cases "p < length xs")
  case False
  then have "length xs \<le> p" by arith
  then have "xs[p := d] = xs" by (rule list_update_beyond)
  then show ?thesis by (simp only:)
next
  case True
  have "covering [d] b = covering [xs ! p] b" for b
    using assms by (simp add: covering_def)
  then have c: "covering (xs[p := d]) b = covering xs b" for b
    using covering_update[OF True, of d b] by simp
  have "totalSize d = totalSize (xs ! p)"
    using assms by (simp add: totalSize_def)
  then have "sum_list (map totalSize (xs[p := d])) = sum_list (map totalSize xs)"
    using sum_update[OF True, of d] by simp
  with c show ?thesis by (simp add: partitions_def)
qed

lemma list_all_mono_len:
  "list_all (\<lambda>p. p < n) ps \<Longrightarrow> n \<le> m \<Longrightarrow> list_all (\<lambda>p. p < (m::nat)) ps"
  by (induction ps) auto

lemma list_all_update:
  "list_all P xs \<Longrightarrow> P d \<Longrightarrow> list_all P (xs[p := d])"
  using set_update_subset_insert[of xs p d] by (auto simp: list_all_iff)

lemma stolen_inv:
  assumes inv: "sched_inv totalSz s" and d: "d \<in> set (m_activeSegments s)"
    and sp: "isSplittable MIN_STEAL_SIZE (m_segments s ! d)"
  shows "sched_inv totalSz (stolen worker d s)"
proof -
  let ?xs = "m_segments s"
  from inv have part: "partitions ?xs totalSz"
    and cur: "list_all (\<lambda>seg. m_startByte seg \<le> m_currentByte seg) ?xs"
    and act: "list_all (\<lambda>p. p < length ?xs) (m_activeSegments s)"
    and pen: "list_all (\<lambda>p. p < length ?xs) (m_pendingQueue s)"
    by (simp_all add: sched_inv_def)
  from act d have dl: "d < length ?xs" by (simp add: list_all_iff)
  with cur have le: "m_startByte (?xs ! d) \<le> m_currentByte (?xs ! d)"
    by (simp add: list_all_length)
  define mid where "mid = m_currentByte (?xs ! d) + remainingBytes (?xs ! d) div 2"
  define donor where "donor = (?xs ! d)\<lparr>m_endByte := mid - 1\<rparr>"
  define new where "new = \<lparr>m_id = m_nextSegmentId s, m_startByte = mid,
     m_endByte = m_endByte (?xs ! d), m_currentByte = mid, m_state = Active,
     m_tempFilePath = [], m_retryCount = 0, m_lastError = []\<rparr>"
  have segs: "m_segments (stolen worker d s) = ?xs[d := donor] @ [new]"
    by (simp add: stolen_def Let_def donor_def new_def mid_def)
  have spl: "split (m_nextSegmentId s) (?xs ! d)
      = Some (donor, Segment_new (m_nextSegmentId s) mid (m_endByte (?xs ! d)))"
    using sp by (simp add: split_def Let_def donor_def mid_def)
  have p': "partitions (?xs[d := donor] @ [new]) totalSz"
    by (rule split_partitions[OF part dl le spl]) (simp_all add: new_def Segment_new_def)
  have c': "list_all (\<lambda>seg. m_startByte seg \<le> m_currentByte seg) (?xs[d := donor] @ [new])"
    using cur le by (simp add: list_all_update donor_def new_def)
  have a': "list_all (\<lambda>p. p < length (?xs[d := donor] @ [new]))
              (set_insert (length ?xs) (m_activeSegments s))"
    using list_all_mono_len[OF act, of "Suc (length ?xs)"] by (simp add: set_insert_def)
  have q': "list_all (\<lambda>p. p < length (?xs[d := donor] @ [new])) (m_pendingQueue s)"
    using list_all_mono_len[OF pen, of "Suc (length ?xs)"] by simp
  have "m_activeSegments (stolen worker d s) = set_insert (length ?xs) (m_activeSegments s)"
    and "m_pendingQueue (stolen worker d s) = m_pendingQueue s"
    by (simp_all add: stolen_def Let_def)
  with p' c' a' q' segs show ?thesis by (simp add: sched_inv_def)
qed

lemma stealWork_inv:
  assumes "sched_inv totalSz s"
  shows "sched_inv totalSz (snd (stealWork worker s))"
proof (cases "m_paused s \<or> m_cancelled s \<or> findLargestActiveSegment s = None")
  case True
  then show ?thesis using assms by (simp add: stealWork_None)
next
  case False
  then obtain d where f: "findLargestActiveSegment s = Some d" by auto
  from findLargest_Some[OF f] stolen_inv[OF assms] False f show ?thesis
    by (simp add: stealWork_Some)
qed

lemma acquireSegment_inv:
  assumes "sched_inv totalSz s"
  shows "sched_inv totalSz (snd (acquireSegment worker s))"
proof (cases "m_paused s \<or> m_cancelled s")
  case True
  then show ?thesis using assms by (auto simp: acquireSegment_def)
next
  case False
  show ?thesis
  proof (cases "m_pendingQueue s")
    case Nil
    then show ?thesis using False stealWork_inv[OF assms] by (simp add: acquireSegment_def)
  next
    case (Cons p ps)
    let ?xs = "m_segments s"
    from assms have part: "partitions ?xs totalSz"
      and cur: "list_all (\<lambda>seg. m_startByte seg \<le> m_currentByte seg) ?xs"
      and act: "list_all (\<lambda>p. p < length ?xs) (m_activeSegments s)"
      and pen: "list_all (\<lambda>p. p < length ?xs) (m_pendingQueue s)"
      by (simp_all add: sched_inv_def)
    from pen Cons have pl: "p < length ?xs" and ps: "list_all (\<lambda>p. p < length ?xs) ps" by simp_all
    from cur pl have le: "m_startByte (?xs ! p) \<le> m_currentByte (?xs ! p)"
      by (simp add: list_all_length)
    have "partitions (?xs[p := setState Active (?xs ! p)]) totalSz"
      using part by (simp add: partitions_update_same setState_def)
    moreover have "list_all (\<lambda>seg. m_startByte seg \<le> m_currentByte seg)
        (?xs[p := setState Active (?xs ! p)])"
      using cur le by (simp add: list_all_update setState_def)
    moreover have "list_all (\<lambda>q. q < length ?xs) (set_insert p (m_activeSegments s))"
      using act pl by (simp add: set_insert_def)
    ultimately show ?thesis using False Cons ps
      by (simp add: acquireSegment_def sched_inv_def)
  qed
qed

lemma rebalanceStep_inv:
  assumes inv: "sched_inv totalSz s" and pl: "p < length (m_segments s)"
  shows "sched_inv totalSz (rebalanceStep p s)"
proof (cases "isSplittable (MIN_STEAL_SIZE * 2) (m_segments s ! p)")
  case False
  then show ?thesis using inv by (simp add: rebalanceStep_def)
next
  case True
  let ?xs = "m_segments s"
  from True have sp: "isSplittable MIN_STEAL_SIZE (?xs ! p)"
    by (simp add: isSplittable_def MIN_STEAL_SIZE_def)
  from inv have part: "partitions ?xs totalSz"
    and cur: "list_all (\<lambda>seg. m_startByte seg \<le> m_currentByte seg) ?xs"
    and act: "list_all (\<lambda>p. p < length ?xs) (m_activeSegments s)"
    and pen: "list_all (\<lambda>p. p < length ?xs) (m_pendingQueue s)"
    by (simp_all add: sched_inv_def)
  from cur pl have le: "m_startByte (?xs ! p) \<le> m_currentByte (?xs ! p)"
    by (simp add: list_all_length)
  define mid where "mid = m_currentByte (?xs ! p) + remainingBytes (?xs ! p) div 2"
  define donor where "donor = (?xs ! p)\<lparr>m_endByte := mid - 1\<rparr>"
  define new where "new = Segment_new (m_nextSegmentId s) mid (m_endByte (?xs ! p))"
  have spl: "split (m_nextSegmentId s) (?xs ! p) = Some (donor, new)"
    using sp by (simp add: split_def Let_def donor_def mid_def new_def)
  have eq: "rebalanceStep p s = s\<lparr>m_nextSegmentId := (m_nextSegmentId s + 1) mod 2 ^ 32,
       m_segments := ?xs[p := donor] @ [new],
       m_pendingQueue := m_pendingQueue s @ [length ?xs]\<rparr>"
    using True spl by (simp add: rebalanceStep_def nextSegmentId_def)
  have p': "partitions (?xs[p := donor] @ [new]) totalSz"
    by (rule split_partitions[OF part pl le spl]) simp_all
  have c': "list_all (\<lambda>seg. m_startByte seg \<le> m_currentByte seg) (?xs[p := donor] @ [new])"
    using cur le by (simp add: list_all_update donor_def new_def Segment_new_def)
  have a': "list_all (\<lambda>p. p < length (?xs[p := donor] @ [new])) (m_activeSegments s)"
    using list_all_mono_len[OF act, of "Suc (length ?xs)"] by simp
  have q': "list_all (\<lambda>p. p < length (?xs[p := donor] @ [new])) (m_pendingQueue s @ [length ?xs])"
    using list_all_mono_len[OF pen, of "Suc (length ?xs)"] by simp
  show ?thesis using p' c' a' q' by (simp add: eq sched_inv_def)
qed

lemma rebalanceStep_length: "length (m_segments s) \<le> length (m_segments (rebalanceStep p s))"
  by (auto simp: rebalanceStep_def nextSegmentId_def split_def Let_def)

lemma rebalanceLoop_inv:
  "sched_inv totalSz s \<Longrightarrow> list_all (\<lambda>p. p < length (m_segments s)) ps
     \<Longrightarrow> sched_inv totalSz (rebalanceLoop slow ps s)"
proof (induction ps arbitrary: s)
  case Nil
  then show ?case by simp
next
  case (Cons p ps)
  let ?s' = "if slow p then rebalanceStep p s else s"
  have "sched_inv totalSz ?s'" using Cons.prems rebalanceStep_inv by simp
  moreover have "list_all (\<lambda>p. p < length (m_segments ?s')) ps"
    using Cons.prems(2) list_all_mono_len[OF _ rebalanceStep_length[of s p], of ps] by simp
  ultimately show ?case using Cons.IH by simp
qed

lemma sched_inv_emit: "sched_inv totalSz (emit sg s) = sched_inv totalSz s"
  by (simp add: sched_inv_def emit_def)

lemma rebalanceSegments_inv:
  assumes "sched_inv totalSz s"
  shows "sched_inv totalSz (rebalanceSegments slow s)"
proof -
  from assms have "list_all (\<lambda>p. p < length (m_segments s)) (m_activeSegments s)"
    by (simp add: sched_inv_def)
  from rebalanceLoop_inv[OF assms this] assms show ?thesis
    by (simp add: rebalanceSegments_def Let_def sched_inv_emit)
qed

lemma advance_inv:
  assumes "sched_inv totalSz s" "p < length (m_segments s)"
  shows "sched_inv totalSz
           (s\<lparr>m_segments := (m_segments s)[p := advanceBy (int n) (m_segments s ! p)]\<rparr>)"
proof -
  let ?xs = "m_segments s"
  from assms have part: "partitions ?xs totalSz"
    and cur: "list_all (\<lambda>seg. m_startByte seg \<le> m_currentByte seg) ?xs"
    by (simp_all add: sched_inv_def)
  from cur assms(2) have le: "m_startByte (?xs ! p) \<le> m_currentByte (?xs ! p)"
    by (simp add: list_all_length)
  have "partitions (?xs[p := advanceBy (int n) (?xs ! p)]) totalSz"
    using part by (simp add: partitions_update_same advanceBy_def)
  moreover have "list_all (\<lambda>seg. m_startByte seg \<le> m_currentByte seg)
      (?xs[p := advanceBy (int n) (?xs ! p)])"
    using cur le by (simp add: list_all_update advanceBy_def)
  ultimately show ?thesis using assms(1) by (simp add: sched_inv_def)
qed

lemma call_inv: "sched_inv totalSz s \<Longrightarrow> sched_inv totalSz (call c s)"
  by (cases c) (simp_all add: stealWork_inv acquireSegment_inv rebalanceSegments_inv advance_inv)

lemma calls_inv: "sched_inv totalSz s \<Longrightarrow> sched_inv totalSz (calls cs s)"
  by (induction cs arbitrary: s) (simp_all add: call_inv)

lemma to_s64_id: "0 \<le> y \<Longrightarrow> y < 2 ^ 63 \<Longrightarrow> to_s64 y = y"
  by (simp add: to_s64_def)

lemma to_u64_id: "0 \<le> x \<Longrightarrow> x < 2 ^ 63 \<Longrightarrow> to_u64 x = x"
  by (simp add: to_u64_def)

lemma to_s64_to_u64: "- (2 ^ 63) < x \<Longrightarrow> x < 2 ^ 63 \<Longrightarrow> to_s64 (to_u64 x) = x"
proof (cases "0 \<le> x")
  case True
  assume "x < 2 ^ 63"
  with True show ?thesis by (simp add: to_s64_def to_u64_def)
next
  case False
  assume a: "- (2 ^ 63) < x"
  have "x mod 2 ^ 64 = (x + 2 ^ 64) mod 2 ^ 64" by simp
  also have "\<dots> = x + 2 ^ 64" using a False by (intro mod_pos_pos_trivial) simp_all
  finally have "x mod 2 ^ 64 = x + 2 ^ 64" .
  then show ?thesis using a False by (simp add: to_s64_def to_u64_def)
qed

lemma div_sizes:
  assumes "0 \<le> x" "x < 2 ^ 63" "0 < n"
  shows "to_s64 (to_u64 x div int n) = x div int n"
    and "to_s64 (to_u64 x mod int n) = x mod int n"
proof -
  have "x div int n \<le> x div 1" using assms by (intro zdiv_mono2) simp_all
  then have "x div int n \<le> x" by simp
  moreover have "0 \<le> x div int n" using assms by (simp add: pos_imp_zdiv_nonneg_iff)
  ultimately show "to_s64 (to_u64 x div int n) = x div int n"
    using assms by (simp add: to_u64_id to_s64_id)
  have "x mod int n \<le> x" using assms by (simp add: zmod_le_nonneg_dividend)
  moreover have "0 \<le> x mod int n" using assms by simp
  ultimately show "to_s64 (to_u64 x mod int n) = x mod int n"
    using assms by (simp add: to_u64_id to_s64_id)
qed

lemma initLoop_frame:
  "i \<le> n \<Longrightarrow>
   m_activeSegments (initLoop i n sz r c s) = m_activeSegments s
   \<and> m_pendingQueue (initLoop i n sz r c s)
       = m_pendingQueue s @ [length (m_segments s) ..< length (m_segments s) + (n - i)]
   \<and> list_all (\<lambda>seg. m_startByte seg \<le> m_currentByte seg)
        (drop (length (m_segments s)) (m_segments (initLoop i n sz r c s)))
   \<and> take (length (m_segments s)) (m_segments (initLoop i n sz r c s)) = m_segments s
   \<and> length (m_segments (initLoop i n sz r c s)) = length (m_segments s) + (n - i)"
proof (induction "n - i" arbitrary: i c s)
  case 0
  then have "\<not> i < n" by simp
  then show ?case by (simp add: initLoop_stop)
next
  case (Suc d)
  then have lt: "i < n" by simp
  define this where "this = (if i = n - 1 then sz + r else sz)"
  define seg where "seg = Segment_new (m_nextSegmentId s) c (c + this - 1)"
  define s2 where "s2 = s\<lparr>m_nextSegmentId := (m_nextSegmentId s + 1) mod 2 ^ 32,
        m_segments := m_segments s @ [seg],
        m_pendingQueue := m_pendingQueue s @ [length (m_segments s)]\<rparr>"
  have step: "initLoop i n sz r c s = initLoop (i + 1) n sz r (c + this) s2"
    using initLoop_step[OF lt] by (simp add: this_def seg_def s2_def)
  have "d = n - (i + 1)" using Suc.hyps(2) by simp
  moreover have "i + 1 \<le> n" using lt by simp
  ultimately have IH:
    "m_activeSegments (initLoop (i + 1) n sz r (c + this) s2) = m_activeSegments s2"
    "m_pendingQueue (initLoop (i + 1) n sz r (c + this) s2)
       = m_pendingQueue s2 @ [length (m_segments s2) ..< length (m_segments s2) + (n - (i + 1))]"
    "list_all (\<lambda>seg. m_startByte seg \<le> m_currentByte seg)
        (drop (length (m_segments s2)) (m_segments (initLoop (i + 1) n sz r (c + this) s2)))"
    "take (length (m_segments s2)) (m_segments (initLoop (i + 1) n sz r (c + this) s2)) = m_segments s2"
    "length (m_segments (initLoop (i + 1) n sz r (c + this) s2)) = length (m_segments s2) + (n - (i + 1))"
    using Suc.hyps(1)[of "i + 1" "c + this" s2] by simp_all
  let ?R = "m_segments (initLoop (i + 1) n sz r (c + this) s2)"
  let ?L = "length (m_segments s)"
  have l2: "length (m_segments s2) = Suc ?L" by (simp add: s2_def)
  have a: "m_activeSegments (initLoop i n sz r c s) = m_activeSegments s"
    using IH(1) step by (simp add: s2_def)
  have e1: "Suc ?L + (n - (i + 1)) = ?L + (n - i)" using lt by arith
  have "?L < ?L + (n - i)" using lt by simp
  then have "[?L ..< ?L + (n - i)] = ?L # [Suc ?L ..< ?L + (n - i)]" by (rule upt_conv_Cons)
  then have "[?L ..< ?L + (n - i)] = ?L # [Suc ?L ..< Suc ?L + (n - (i + 1))]"
    by (simp only: e1)
  then have b: "m_pendingQueue (initLoop i n sz r c s)
       = m_pendingQueue s @ [?L ..< ?L + (n - i)]"
    using IH(2) step l2 by (simp add: s2_def)
  have tk: "take (Suc ?L) ?R = m_segments s @ [seg]" using IH(4) l2 by (simp add: s2_def)
  then have "take ?L (take (Suc ?L) ?R) = m_segments s" by simp
  then have e: "take ?L ?R = m_segments s" by (simp add: min_def)
  have len: "length ?R = ?L + (n - i)" using IH(5) l2 lt by simp
  have nth: "?R ! ?L = seg"
  proof -
    have "?R ! ?L = (take (Suc ?L) ?R) ! ?L" by simp
    also have "\<dots> = (m_segments s @ [seg]) ! ?L" by (simp only: tk)
    also have "\<dots> = seg" by simp
    finally show ?thesis .
  qed
  have "drop ?L ?R = ?R ! ?L # drop (Suc ?L) ?R"
    using len lt by (simp add: Cons_nth_drop_Suc)
  then have d': "list_all (\<lambda>seg. m_startByte seg \<le> m_currentByte seg) (drop ?L ?R)"
    using IH(3) l2 nth by (simp add: seg_def Segment_new_def)
  show ?case using a b d' e len step by simp
qed

lemma initializeSegments_inv:
  assumes "0 \<le> totalSz" "totalSz < 2 ^ 63"
  shows "sched_inv totalSz (snd (initializeSegments totalSz requested s))"
    and "length (m_segments (snd (initializeSegments totalSz requested s)))
           = clamp requested MIN_SEGMENTS MAX_SEGMENTS"
    and "chain 0 (m_segments (snd (initializeSegments totalSz requested s))) (totalSz - 1)"
    and "\<forall>k < clamp requested MIN_SEGMENTS MAX_SEGMENTS.
           totalSize (m_segments (snd (initializeSegments totalSz requested s)) ! k)
             = (if k = clamp requested MIN_SEGMENTS MAX_SEGMENTS - 1
                then totalSz div int (clamp requested MIN_SEGMENTS MAX_SEGMENTS)
                       + totalSz mod int (clamp requested MIN_SEGMENTS MAX_SEGMENTS)
                else totalSz div int (clamp requested MIN_SEGMENTS MAX_SEGMENTS))"
proof -
  define n where "n = clamp requested MIN_SEGMENTS MAX_SEGMENTS"
  define s0 where "s0 = s\<lparr>m_segments := [], m_pendingQueue := [], m_activeSegments := [],
                 m_completedSegments := [], m_failedSegments := [], m_nextSegmentId := 0\<rparr>"
  define sz where "sz = totalSz div int n"
  define r where "r = totalSz mod int n"
  have n0: "0 < n" by (simp add: n_def clamp_def MIN_SEGMENTS_def MAX_SEGMENTS_def)
  have eq: "snd (initializeSegments totalSz requested s) = initLoop 0 n sz r 0 s0"
    using div_sizes[OF assms n0]
    by (simp add: initializeSegments_def Let_def n_def s0_def sz_def r_def)
  have sz0: "0 \<le> sz" using assms n0 by (simp add: sz_def pos_imp_zdiv_nonneg_iff)
  have r0: "0 \<le> r" using n0 by (simp add: r_def)
  from initLoop_segments[OF sz0 r0, of 0 n 0 s0] obtain new where
    n1: "m_segments (initLoop 0 n sz r 0 s0) = new" and n2: "length new = n"
    and n3: "chain 0 new (int n * sz + r - 1)"
    and n4: "\<forall>k < n. totalSize (new ! k) = (if k = n - 1 then sz + r else sz)"
    using n0 by (auto simp: s0_def)
  have tot: "int n * sz + r = totalSz" by (simp add: sz_def r_def)
  from initLoop_frame[of 0 n sz r 0 s0]
  have f1: "m_activeSegments (initLoop 0 n sz r 0 s0) = []"
    and f2: "m_pendingQueue (initLoop 0 n sz r 0 s0) = [0 ..< n]"
    and f3: "list_all (\<lambda>seg. m_startByte seg \<le> m_currentByte seg) new"
    using n1 by (simp_all add: s0_def)
  show "length (m_segments (snd (initializeSegments totalSz requested s)))
           = clamp requested MIN_SEGMENTS MAX_SEGMENTS"
    using eq n1 n2 by (simp add: n_def)
  show ch: "chain 0 (m_segments (snd (initializeSegments totalSz requested s))) (totalSz - 1)"
    using eq n1 n3 tot by simp
  show "sched_inv totalSz (snd (initializeSegments totalSz requested s))"
    using chain_partitions[OF ch] eq n1 n2 f1 f2 f3
    by (simp add: sched_inv_def list_all_iff)
  show "\<forall>k < clamp requested MIN_SEGMENTS MAX_SEGMENTS.
           totalSize (m_segments (snd (initializeSegments totalSz requested s)) ! k)
             = (if k = clamp requested MIN_SEGMENTS MAX_SEGMENTS - 1
                then totalSz div int (clamp requested MIN_SEGMENTS MAX_SEGMENTS)
                       + totalSz mod int (clamp requested MIN_SEGMENTS MAX_SEGMENTS)
                else totalSz div int (clamp requested MIN_SEGMENTS MAX_SEGMENTS))"
    using eq n1 n4 by (simp add: n_def[symmetric] sz_def r_def)
qed

lemma initializeSegments_single_state:
  assumes "- (2 ^ 63) < totalSz" "totalSz < 2 ^ 63"
  shows "snd (initializeSegments totalSz 1 s)
           = s\<lparr>m_segments := [Segment_new 0 0 (totalSz - 1)], m_pendingQueue := [0],
               m_activeSegments := [], m_completedSegments := [], m_failedSegments := [],
               m_nextSegmentId := 1\<rparr>"
proof -
  have c: "clamp (Suc 0) MIN_SEGMENTS MAX_SEGMENTS = Suc 0"
    by (simp add: clamp_def MIN_SEGMENTS_def MAX_SEGMENTS_def)
  have z: "to_s64 0 = 0" by (simp add: to_s64_def)
  have e: "snd (initializeSegments totalSz 1 s) =
    initLoop 0 1 totalSz 0 0 (s\<lparr>m_segments := [], m_pendingQueue := [], m_activeSegments := [],
                 m_completedSegments := [], m_failedSegments := [], m_nextSegmentId := 0\<rparr>)"
    using to_s64_to_u64[OF assms] by (simp add: initializeSegments_def Let_def c z)
  show ?thesis
    unfolding e by (simp add: initLoop_step initLoop_stop)
qed

lemma initializeSegments_single:
  assumes "- (2 ^ 63) < totalSz" "totalSz < 2 ^ 63"
  shows "m_segments (snd (initializeSegments totalSz 1 s)) = [Segment_new 0 0 (totalSz - 1)]"
    and "m_activeSegments (snd (initializeSegments totalSz 1 s)) = []"
    and "m_pendingQueue (snd (initializeSegments totalSz 1 s)) = [0]"
  unfolding initializeSegments_single_state[OF assms] by simp_all

lemma single_partitions:
  "totalSz \<le> 0 \<Longrightarrow> partitions [Segment_new 0 0 (totalSz - 1)] totalSz"
  by (auto simp: partitions_def covering_def Segment_new_def totalSize_def)

lemma task_initializeSegments_inv:
  assumes "- (2 ^ 63) < fileSize" "fileSize < 2 ^ 63"
  shows "sched_inv fileSize (snd (task_initializeSegments supportsRanges fileSize s))"
proof (cases "0 \<le> fileSize")
  case True
  then show ?thesis
    using initializeSegments_inv(1)[OF True assms(2)] by (simp add: task_initializeSegments_def)
next
  case False
  then have "fileSize \<le> 0" by simp
  from single_partitions[OF this] initializeSegments_single[OF assms, of s] False
  show ?thesis
    by (simp add: task_initializeSegments_def sched_inv_def Segment_new_def)
qed

lemma initializeSegments_length:
  "length (m_segments (snd (initializeSegments totalSz requested s)))
     = clamp requested MIN_SEGMENTS MAX_SEGMENTS"
  using initLoop_frame[of 0 "clamp requested MIN_SEGMENTS MAX_SEGMENTS"]
  by (simp add: initializeSegments_def Let_def)

text \<open>
  \<open>SegmentScheduler::initializeSegments\<close> with a total size of \<open>0\<close> and a count of \<open>4\<close>
  creates four segments, where claim C3 has it emit a single segment for a total size
  that is not positive.
\<close>

theorem C3_zero_size_gives_requested_count:
  "length (m_segments (snd (initializeSegments 0 4 SegmentScheduler_new))) = 4
   \<and> m_segments (snd (initializeSegments 0 4 SegmentScheduler_new)) \<noteq> [Segment_new 0 0 (- 1)]"
proof -
  have "clamp 4 MIN_SEGMENTS MAX_SEGMENTS = 4"
    by (simp add: clamp_def MIN_SEGMENTS_def MAX_SEGMENTS_def)
  then have l: "length (m_segments (snd (initializeSegments 0 4 SegmentScheduler_new))) = 4"
    using initializeSegments_length[of 0 4 SegmentScheduler_new] by simp
  then show ?thesis by auto
qed

text \<open>
  Claim C3, amended. \<open>SegmentScheduler::initializeSegments\<close> clamps the requested count
  to \<open>[MIN_SEGMENTS, MAX_SEGMENTS]\<close> and creates that many segments whatever the total
  size is. For a total size that is not negative the segments partition
  \<open>[0, total_size)\<close>: they are contiguous in vector order from 0 to \<open>total_size - 1\<close>, each
  has \<open>total_size div n\<close> bytes and the last one takes the remainder, every offset lies in
  exactly one segment and the sizes add up to \<open>total_size\<close>. The partition survives any
  sequence of scheduler calls, whatever the number of splits by \<open>stealWork\<close> and by the
  rebalance among them. The single segment for a size that is not positive or a server
  without range support is the choice of \<open>DownloadTask::initializeSegments\<close>, which asks
  the scheduler for one segment, and that segment is \<open>[0, total_size - 1]\<close>; the
  partition of a task's scheduler is preserved in the same way. \<open>Segment::split\<close> and the
  \<open>Segment\<close> constructor are the models written from the specification.
\<close>

theorem C3_segments_partition:
  fixes totalSz fileSize :: ByteCount and requested :: nat and s :: Scheduler
    and supportsRanges :: bool
  defines "n \<equiv> clamp requested MIN_SEGMENTS MAX_SEGMENTS"
    and "s1 \<equiv> snd (initializeSegments totalSz requested s)"
    and "t1 \<equiv> snd (task_initializeSegments supportsRanges fileSize s)"
  assumes "0 \<le> totalSz" and "totalSz < 2 ^ 63"
    and "- (2 ^ 63) < fileSize" and "fileSize < 2 ^ 63"
  shows "MIN_SEGMENTS \<le> n \<and> n \<le> MAX_SEGMENTS \<and> length (m_segments s1) = n
    \<and> (\<forall>t. length (m_segments (snd (initializeSegments t requested s))) = n)
    \<and> chain 0 (m_segments s1) (totalSz - 1)
    \<and> (\<forall>k < n. totalSize (m_segments s1 ! k)
          = (if k = n - 1 then totalSz div int n + totalSz mod int n else totalSz div int n))
    \<and> partitions (m_segments s1) totalSz
    \<and> (\<forall>cs. partitions (m_segments (calls cs s1)) totalSz)
    \<and> (fileSize \<le> 0 \<or> \<not> supportsRanges
          \<longrightarrow> m_segments t1 = [Segment_new 0 0 (fileSize - 1)])
    \<and> (\<forall>cs. partitions (m_segments (calls cs t1)) fileSize)"
proof -
  have a: "MIN_SEGMENTS \<le> n \<and> n \<le> MAX_SEGMENTS"
    by (simp add: n_def clamp_def MIN_SEGMENTS_def MAX_SEGMENTS_def)
  note i = initializeSegments_inv[OF assms(4,5), of requested s]
  have b: "length (m_segments s1) = n" using i(2) by (simp add: s1_def n_def)
  have k: "\<forall>t. length (m_segments (snd (initializeSegments t requested s))) = n"
    by (simp add: initializeSegments_length n_def)
  have c: "chain 0 (m_segments s1) (totalSz - 1)" using i(3) by (simp add: s1_def)
  have d: "\<forall>k < n. totalSize (m_segments s1 ! k)
          = (if k = n - 1 then totalSz div int n + totalSz mod int n else totalSz div int n)"
    using i(4) by (simp add: s1_def n_def)
  have inv1: "sched_inv totalSz s1" using i(1) by (simp add: s1_def)
  then have e: "partitions (m_segments s1) totalSz" by (simp add: sched_inv_def)
  have f: "\<forall>cs. partitions (m_segments (calls cs s1)) totalSz"
    using calls_inv[OF inv1] by (simp add: sched_inv_def)
  have g: "fileSize \<le> 0 \<or> \<not> supportsRanges
          \<longrightarrow> m_segments t1 = [Segment_new 0 0 (fileSize - 1)]"
    using initializeSegments_single(1)[OF assms(6,7), of s]
    by (auto simp: t1_def task_initializeSegments_def)
  have "sched_inv fileSize t1"
    using task_initializeSegments_inv[OF assms(6,7)] by (simp add: t1_def)
  then have h: "\<forall>cs. partitions (m_segments (calls cs t1)) fileSize"
    using calls_inv by (simp add: sched_inv_def)
  show ?thesis using a b k c d e f g h by blast
qed

theorem C3_segments_partition_witness:
  "(0::int) \<le> 4194304 \<and> (4194304::int) < 2 ^ 63 \<and> - (2 ^ 63) < (0::int) \<and> (0::int) < 2 ^ 63
   \<and> length (m_segments (snd (initializeSegments 4194304 2 SegmentScheduler_new))) = 2
   \<and> partitions (m_segments (calls [CallAcquire 1, CallSteal 2]
        (snd (initializeSegments 4194304 2 SegmentScheduler_new)))) 4194304
   \<and> m_segments (snd (task_initializeSegments True 0 SegmentScheduler_new))
        = [Segment_new 0 0 (- 1)]"
proof -
  have h: "(0::int) \<le> 4194304" "(4194304::int) < 2 ^ 63" "- (2 ^ 63) < (0::int)"
    "(0::int) < 2 ^ 63" by simp_all
  have n: "clamp 2 MIN_SEGMENTS MAX_SEGMENTS = 2"
    by (simp add: clamp_def MIN_SEGMENTS_def MAX_SEGMENTS_def)
  note t = C3_segments_partition[OF h, of 2 SegmentScheduler_new True]
  from t have "length (m_segments (snd (initializeSegments 4194304 2 SegmentScheduler_new)))
      = clamp 2 MIN_SEGMENTS MAX_SEGMENTS" by blast
  then have p1: "length (m_segments (snd (initializeSegments 4194304 2 SegmentScheduler_new))) = 2"
    by (simp only: n)
  from t have "\<forall>cs. partitions (m_segments (calls cs
        (snd (initializeSegments 4194304 2 SegmentScheduler_new)))) 4194304" by blast
  then have p2: "partitions (m_segments (calls [CallAcquire 1, CallSteal 2]
        (snd (initializeSegments 4194304 2 SegmentScheduler_new)))) 4194304" by blast
  from t have "(0::int) \<le> 0 \<or> \<not> True \<longrightarrow>
      m_segments (snd (task_initializeSegments True 0 SegmentScheduler_new))
        = [Segment_new 0 0 (0 - 1)]" by blast
  then have p3: "m_segments (snd (task_initializeSegments True 0 SegmentScheduler_new))
        = [Segment_new 0 0 (- 1)]" by simp
  show ?thesis using h p1 p2 p3 by (intro conjI)
qed

lemma stolen_fields:
  "m_paused (stolen w d s) = m_paused s" "m_cancelled (stolen w d s) = m_cancelled s"
  "m_pendingQueue (stolen w d s) = m_pendingQueue s"
  "m_completedSegments (stolen w d s) = m_completedSegments s"
  "m_failedSegments (stolen w d s) = m_failedSegments s"
  "m_nextSegmentId (stolen w d s) = (m_nextSegmentId s + 1) mod 2 ^ 32"
  "m_activeSegments (stolen w d s) = set_insert (length (m_segments s)) (m_activeSegments s)"
  "m_workerAssignments (stolen w d s) = assign w (length (m_segments s)) (m_workerAssignments s)"
  "m_signals (stolen w d s) = m_signals s @ [segmentAdded (m_nextSegmentId s)]"
  "length (m_segments (stolen w d s)) = Suc (length (m_segments s))"
  by (simp_all add: stolen_def Let_def)

lemma stolen_segments:
  assumes "d < length (m_segments s)"
  shows "m_segments (stolen w d s) ! d
           = (m_segments s ! d)\<lparr>m_endByte := m_currentByte (m_segments s ! d)
                + remainingBytes (m_segments s ! d) div 2 - 1\<rparr>"
    and "m_segments (stolen w d s) ! length (m_segments s)
           = \<lparr>m_id = m_nextSegmentId s,
              m_startByte = m_currentByte (m_segments s ! d) + remainingBytes (m_segments s ! d) div 2,
              m_endByte = m_endByte (m_segments s ! d),
              m_currentByte = m_currentByte (m_segments s ! d) + remainingBytes (m_segments s ! d) div 2,
              m_state = Active, m_tempFilePath = [], m_retryCount = 0, m_lastError = []\<rparr>"
    and "q < length (m_segments s) \<Longrightarrow> q \<noteq> d
           \<Longrightarrow> m_segments (stolen w d s) ! q = m_segments s ! q"
  using assms by (simp_all add: stolen_def Let_def nth_append)

lemma map_id_update:
  "m_id y = m_id (xs ! p) \<Longrightarrow> map m_id (xs[p := y]) = map m_id xs"
proof (cases "p < length xs")
  case True
  assume "m_id y = m_id (xs ! p)"
  then have "(map m_id xs)[p := m_id y] = map m_id xs"
    using True by (simp add: list_update_same_conv)
  then show ?thesis by (simp add: map_update)
next
  case False
  then have "length xs \<le> p" by simp
  then have "xs[p := y] = xs" by (rule list_update_beyond)
  then show ?thesis by (simp only:)
qed

lemma ids_inv_push:
  assumes "ids_inv s" "m_id x = m_nextSegmentId s" "map m_id segs = map m_id (m_segments s)"
    and "m_segments s' = segs @ [x]"
    and "m_nextSegmentId s' = (m_nextSegmentId s + 1) mod 2 ^ 32"
  shows "ids_inv s'"
proof -
  from assms(3) have "length (map m_id segs) = length (map m_id (m_segments s))"
    by (simp only:)
  then have l: "length segs = length (m_segments s)" by simp
  have "(length (m_segments s) mod 2 ^ 32 + 1) mod 2 ^ 32 = Suc (length (m_segments s)) mod 2 ^ 32"
    by (simp add: mod_Suc_eq)
  then show ?thesis
    using assms l by (simp add: ids_inv_def)
qed

lemma ids_inv_same:
  "ids_inv s \<Longrightarrow> map m_id (m_segments s') = map m_id (m_segments s)
     \<Longrightarrow> m_nextSegmentId s' = m_nextSegmentId s \<Longrightarrow> ids_inv s'"
proof -
  assume a: "ids_inv s" "map m_id (m_segments s') = map m_id (m_segments s)"
    "m_nextSegmentId s' = m_nextSegmentId s"
  from a(2) have "length (map m_id (m_segments s')) = length (map m_id (m_segments s))"
    by (simp only:)
  then have "length (m_segments s') = length (m_segments s)" by simp
  with a show ?thesis by (simp add: ids_inv_def)
qed

lemma ids_inv_stolen: "ids_inv s \<Longrightarrow> ids_inv (stolen worker d s)"
  by (rule ids_inv_push[where s = s and segs = "(m_segments s)[d := (m_segments s ! d)
        \<lparr>m_endByte := m_currentByte (m_segments s ! d)
            + remainingBytes (m_segments s ! d) div 2 - 1\<rparr>]"])
     (simp_all add: stolen_def Let_def map_id_update)

lemma ids_inv_stealWork: "ids_inv s \<Longrightarrow> ids_inv (snd (stealWork worker s))"
proof (cases "m_paused s \<or> m_cancelled s \<or> findLargestActiveSegment s = None")
  case True
  assume "ids_inv s"
  then show ?thesis using stealWork_None[OF True] by simp
next
  case False
  assume i: "ids_inv s"
  from False obtain d where "findLargestActiveSegment s = Some d" by auto
  with False stealWork_Some[of s d worker] have "stealWork worker s
      = (Some (length (m_segments s)), stolen worker d s)" by simp
  then show ?thesis using ids_inv_stolen[OF i] by simp
qed

lemma ids_inv_acquireSegment: "ids_inv s \<Longrightarrow> ids_inv (snd (acquireSegment worker s))"
proof (cases "m_paused s \<or> m_cancelled s")
  case True
  assume "ids_inv s"
  then show ?thesis using True by (auto simp: acquireSegment_def)
next
  case False
  assume i: "ids_inv s"
  show ?thesis
  proof (cases "m_pendingQueue s")
    case Nil
    then show ?thesis using False ids_inv_stealWork[OF i] by (simp add: acquireSegment_def)
  next
    case (Cons p ps)
    have "ids_inv (s\<lparr>m_pendingQueue := ps,
                   m_segments := (m_segments s)[p := setState Active (m_segments s ! p)],
                   m_activeSegments := set_insert p (m_activeSegments s),
                   m_workerAssignments := assign worker p (m_workerAssignments s)\<rparr>)"
      by (rule ids_inv_same[OF i]) (simp_all add: map_id_update setState_def)
    then show ?thesis using False Cons by (simp add: acquireSegment_def)
  qed
qed

lemma ids_inv_rebalanceStep: "ids_inv s \<Longrightarrow> ids_inv (rebalanceStep p s)"
proof (cases "isSplittable (MIN_STEAL_SIZE * 2) (m_segments s ! p)")
  case False
  assume "ids_inv s"
  then show ?thesis using False by (simp add: rebalanceStep_def)
next
  case True
  assume i: "ids_inv s"
  from True have sp: "isSplittable MIN_STEAL_SIZE (m_segments s ! p)"
    by (simp add: isSplittable_def MIN_STEAL_SIZE_def)
  define midpoint where
    "midpoint = m_currentByte (m_segments s ! p) + remainingBytes (m_segments s ! p) div 2"
  have e: "rebalanceStep p s
    = s\<lparr>m_nextSegmentId := (m_nextSegmentId s + 1) mod 2 ^ 32,
        m_segments := (m_segments s)[p := (m_segments s ! p)\<lparr>m_endByte := midpoint - 1\<rparr>]
          @ [Segment_new (m_nextSegmentId s) midpoint (m_endByte (m_segments s ! p))],
        m_pendingQueue := m_pendingQueue s @ [length (m_segments s)]\<rparr>"
    using True sp
    by (simp add: rebalanceStep_def nextSegmentId_def split_def Let_def midpoint_def)
  show ?thesis
    unfolding e
    by (rule ids_inv_push[OF i, where segs = "(m_segments s)[p := (m_segments s ! p)
          \<lparr>m_endByte := midpoint - 1\<rparr>]"])
       (simp_all add: map_id_update Segment_new_def)
qed

lemma ids_inv_rebalanceLoop: "ids_inv s \<Longrightarrow> ids_inv (rebalanceLoop slow ps s)"
  by (induction ps arbitrary: s) (simp_all add: ids_inv_rebalanceStep)

lemma ids_inv_rebalanceSegments: "ids_inv s \<Longrightarrow> ids_inv (rebalanceSegments slow s)"
proof -
  assume i: "ids_inv s"
  have "ids_inv (emit sg s')" if "ids_inv s'" for sg s'
    using that by (simp add: ids_inv_def emit_def)
  then show ?thesis
    using ids_inv_rebalanceLoop[OF i] i by (simp add: rebalanceSegments_def Let_def)
qed

lemma ids_inv_call: "ids_inv s \<Longrightarrow> ids_inv (call c s)"
proof (cases c)
  case (CallAdvance p n)
  assume i: "ids_inv s"
  have "ids_inv (s\<lparr>m_segments := (m_segments s)[p := advanceBy (int n) (m_segments s ! p)]\<rparr>)"
    by (rule ids_inv_same[OF i]) (simp_all add: map_id_update advanceBy_def)
  then show ?thesis using CallAdvance i by simp
qed (simp_all add: ids_inv_acquireSegment ids_inv_stealWork ids_inv_rebalanceSegments)

lemma ids_inv_calls: "ids_inv s \<Longrightarrow> ids_inv (calls cs s)"
  by (induction cs arbitrary: s) (simp_all add: ids_inv_call)

lemma ids_inv_initLoop: "ids_inv s \<Longrightarrow> ids_inv (initLoop i n sz r c s)"
proof (induction "n - i" arbitrary: i c s)
  case 0
  then have "\<not> i < n" by simp
  with 0 show ?case by (simp add: initLoop_stop)
next
  case (Suc d)
  then have lt: "i < n" by simp
  define s2 where "s2 = s\<lparr>m_nextSegmentId := (m_nextSegmentId s + 1) mod 2 ^ 32,
          m_segments := m_segments s
            @ [Segment_new (m_nextSegmentId s) c (c + (if i = n - 1 then sz + r else sz) - 1)],
          m_pendingQueue := m_pendingQueue s @ [length (m_segments s)]\<rparr>"
  have "ids_inv s2"
    by (rule ids_inv_push[OF Suc.prems, where segs = "m_segments s"])
       (simp_all add: s2_def Segment_new_def)
  moreover have "d = n - (i + 1)" using Suc.hyps(2) by simp
  ultimately have "ids_inv (initLoop (i + 1) n sz r (c + (if i = n - 1 then sz + r else sz)) s2)"
    using Suc.hyps(1) by blast
  then show ?case using initLoop_step[OF lt, of sz r c s] by (simp add: s2_def)
qed

lemma ids_inv_initializeSegments: "ids_inv (snd (initializeSegments totalSz requested s))"
proof -
  have "ids_inv (s\<lparr>m_segments := [], m_pendingQueue := [], m_activeSegments := [],
                 m_completedSegments := [], m_failedSegments := [], m_nextSegmentId := 0\<rparr>)"
    by (simp add: ids_inv_def)
  then show ?thesis by (simp add: initializeSegments_def Let_def ids_inv_initLoop)
qed

lemma ids_inv_fresh:
  assumes "ids_inv s"
  shows "length (m_segments s) \<le> 2 ^ 32 \<Longrightarrow> distinct (map m_id (m_segments s))"
    and "length (m_segments s) < 2 ^ 32
           \<Longrightarrow> list_all (\<lambda>seg. m_id seg \<noteq> m_nextSegmentId s) (m_segments s)"
proof -
  have m: "map m_id (m_segments s) = [0 ..< length (m_segments s)]"
    if "length (m_segments s) \<le> 2 ^ 32"
  proof -
    have "map (\<lambda>i. i mod 2 ^ 32) [0 ..< length (m_segments s)]
        = map (\<lambda>i. i) [0 ..< length (m_segments s)]"
      using that by (intro map_cong) simp_all
    then show ?thesis using assms by (simp add: ids_inv_def)
  qed
  show "distinct (map m_id (m_segments s))" if "length (m_segments s) \<le> 2 ^ 32"
    using m[OF that] by simp
  show "list_all (\<lambda>seg. m_id seg \<noteq> m_nextSegmentId s) (m_segments s)"
    if lt: "length (m_segments s) < 2 ^ 32"
  proof -
    have n: "m_nextSegmentId s = length (m_segments s)"
      using assms lt by (simp add: ids_inv_def)
    have le: "length (m_segments s) \<le> 2 ^ 32" using lt by simp
    have ni: "m_nextSegmentId s \<notin> m_id ` set (m_segments s)"
      unfolding set_map[symmetric] by (simp add: m[OF le] n)
    show ?thesis
      unfolding list_all_iff
    proof
      fix seg
      assume "seg \<in> set (m_segments s)"
      then have "m_id seg \<in> m_id ` set (m_segments s)" by (rule imageI)
      with ni show "m_id seg \<noteq> m_nextSegmentId s" by auto
    qed
  qed
qed

text \<open>
  The ids are as \<open>ids_inv\<close> says after \<open>initializeSegments\<close> and after any calls that follow.
\<close>

lemma ids_inv_reachable:
  "ids_inv (calls cs (snd (initializeSegments totalSz requested s)))"
  by (rule ids_inv_calls) (rule ids_inv_initializeSegments)

text \<open>
  The other operations of the scheduler neither create a segment nor touch the counter.
\<close>

lemma ids_inv_releaseSegment: "ids_inv s \<Longrightarrow> ids_inv (releaseSegment w p s)"
proof -
  assume i: "ids_inv s"
  have "map m_id (m_segments (releaseSegment w p s)) = map m_id (m_segments s)
      \<and> m_nextSegmentId (releaseSegment w p s) = m_nextSegmentId s"
    by (simp add: releaseSegment_def Let_def checkAllComplete_def emit_def map_id_update
        setState_def split: SegmentState.splits)
  then show ?thesis using ids_inv_same[OF i] by blast
qed

lemma ids_inv_markFailed: "ids_inv s \<Longrightarrow> ids_inv (markFailed p e s)"
proof -
  assume i: "ids_inv s"
  have a: "map m_id ((m_segments s)[p := incrementRetry (setLastError e (m_segments s ! p))])
      = map m_id (m_segments s)"
    by (rule map_id_update) (simp add: incrementRetry_def setLastError_def)
  have "map m_id (xs[p := setState st (incrementRetry (setLastError e (m_segments s ! p)))])
      = map m_id (xs[p := incrementRetry (setLastError e (m_segments s ! p))])" for xs st
    by (simp add: map_update setState_def)
  with a have "map m_id (m_segments (markFailed p e s)) = map m_id (m_segments s)
      \<and> m_nextSegmentId (markFailed p e s) = m_nextSegmentId s"
    by (simp add: markFailed_def Let_def emit_def)
  then show ?thesis using ids_inv_same[OF i] by blast
qed

lemma pauseLoop_ids:
  "map m_id (m_segments (pauseLoop ps s)) = map m_id (m_segments s)
   \<and> m_nextSegmentId (pauseLoop ps s) = m_nextSegmentId s"
  by (induction ps arbitrary: s) (simp_all add: map_id_update setState_def)

lemma ids_inv_pauseAll: "ids_inv s \<Longrightarrow> ids_inv (pauseAll s)"
proof -
  assume i: "ids_inv s"
  have "map m_id (m_segments (pauseAll s)) = map m_id (m_segments s)
      \<and> m_nextSegmentId (pauseAll s) = m_nextSegmentId s"
    using pauseLoop_ids[of "m_activeSegments s" "s\<lparr>m_paused := True\<rparr>"]
    by (simp add: pauseAll_def)
  then show ?thesis using ids_inv_same[OF i] by blast
qed

lemma ids_inv_resumeAll: "ids_inv s \<Longrightarrow> ids_inv (resumeAll s)"
proof -
  assume i: "ids_inv s"
  have "map m_id (map (\<lambda>seg. if m_state seg = Paused then setState Pending seg else seg) xs)
      = map m_id xs" for xs
    by (induction xs) (simp_all add: setState_def)
  then have "map m_id (m_segments (resumeAll s)) = map m_id (m_segments s)
      \<and> m_nextSegmentId (resumeAll s) = m_nextSegmentId s"
    by (simp add: resumeAll_def)
  then show ?thesis using ids_inv_same[OF i] by blast
qed

lemma ids_inv_cancelAll: "ids_inv s \<Longrightarrow> ids_inv (cancelAll s)"
  by (simp add: ids_inv_def cancelAll_def)

lemma ids_inv_reset: "ids_inv (reset s)"
  by (simp add: ids_inv_def reset_def)

text \<open>
  Claim C5. On a scheduler whose active pointers are valid and which has no active segment
  while paused or cancelled: if some active segment has \<open>remaining \<ge> 2 * MIN_STEAL_SIZE\<close>,
  \<open>stealWork\<close> picks an active, splittable segment \<open>d\<close> whose remaining bytes are the
  greatest of all active segments, the donor's end becomes \<open>midpoint - 1\<close> with
  \<open>midpoint = current_byte + remaining div 2\<close>, and the caller gets a new Active segment
  \<open>[midpoint, original end]\<close> whose id is the value of the id counter, which is then
  incremented; the new segment joins the active set and is assigned to the caller, and no
  other segment changes. The id is fresh: when the ids are as \<open>ids_inv\<close> says, which they
  are in every scheduler reached from \<open>initializeSegments\<close> (lemma \<open>ids_inv_reachable\<close>), and
  the 32-bit counter has not wrapped (fewer than \<open>2 ^ 32\<close> segments), no segment has the
  new id before the call, all ids differ from each other after it, and \<open>ids_inv\<close> holds
  again. If no active segment is splittable, \<open>stealWork\<close> returns none and the scheduler
  is unchanged. \<open>Segment::split\<close> is the model written from the specification.
\<close>

theorem C5_stealWork:
  fixes s :: Scheduler and worker :: nat
  defines "segs \<equiv> m_segments s" and "act \<equiv> m_activeSegments s"
    and "r \<equiv> stealWork worker s"
  assumes ptrs: "list_all (\<lambda>p. p < length segs) act"
    and flags: "flags_inv s"
  shows "if list_ex (\<lambda>p. isSplittable MIN_STEAL_SIZE (segs ! p)) act
         then (\<exists>d midpoint.
                 d \<in> set act \<and> 2 * MIN_STEAL_SIZE \<le> remainingBytes (segs ! d)
                 \<and> list_all (\<lambda>q. remainingBytes (segs ! q) \<le> remainingBytes (segs ! d)) act
                 \<and> midpoint = m_currentByte (segs ! d) + remainingBytes (segs ! d) div 2
                 \<and> fst r = Some (length segs)
                 \<and> length (m_segments (snd r)) = length segs + 1
                 \<and> m_segments (snd r) ! d = (segs ! d)\<lparr>m_endByte := midpoint - 1\<rparr>
                 \<and> m_segments (snd r) ! length segs
                      = \<lparr>m_id = m_nextSegmentId s, m_startByte = midpoint,
                         m_endByte = m_endByte (segs ! d), m_currentByte = midpoint,
                         m_state = Active, m_tempFilePath = [], m_retryCount = 0,
                         m_lastError = []\<rparr>
                 \<and> list_all (\<lambda>q. q = d \<or> m_segments (snd r) ! q = segs ! q) [0 ..< length segs]
                 \<and> set (m_activeSegments (snd r)) = insert (length segs) (set act)
                 \<and> map_of (m_workerAssignments (snd r)) worker = Some (length segs)
                 \<and> m_nextSegmentId (snd r) = (m_nextSegmentId s + 1) mod 2 ^ 32
                 \<and> (ids_inv s \<and> length segs < 2 ^ 32 \<longrightarrow>
                       list_all (\<lambda>seg. m_id seg \<noteq> m_nextSegmentId s) segs
                       \<and> distinct (map m_id (m_segments (snd r)))
                       \<and> ids_inv (snd r)))
         else r = (None, s)"
proof (cases "list_ex (\<lambda>p. isSplittable MIN_STEAL_SIZE (segs ! p)) act")
  case False
  have "findLargestActiveSegment s = None"
  proof (cases "findLargestActiveSegment s")
    case (Some d)
    from findLargest_Some[OF this] False show ?thesis
      by (auto simp: list_ex_iff segs_def act_def)
  qed simp
  then have "r = (None, s)" by (simp add: r_def stealWork_None)
  with False show ?thesis by simp
next
  case True
  then obtain p where p: "p \<in> set act" "isSplittable MIN_STEAL_SIZE (segs ! p)"
    by (auto simp: list_ex_iff)
  then have ne: "act \<noteq> []" by auto
  with flags have run: "\<not> m_paused s" "\<not> m_cancelled s"
    by (auto simp: flags_inv_def act_def split: if_splits)
  from findLargest_exists[of p s] p obtain d where f: "findLargestActiveSegment s = Some d"
    by (auto simp: segs_def act_def)
  from findLargest_Some[OF f] have d: "d \<in> set act" "isSplittable MIN_STEAL_SIZE (segs ! d)"
    "list_all (\<lambda>q. remainingBytes (segs ! q) \<le> remainingBytes (segs ! d)) act"
    by (simp_all add: segs_def act_def)
  from d(1) ptrs have dl: "d < length segs" by (simp add: list_all_iff)
  have r: "r = (Some (length segs), stolen worker d s)"
    using stealWork_Some[OF run f] by (simp add: r_def segs_def)
  define midpoint where "midpoint = m_currentByte (segs ! d) + remainingBytes (segs ! d) div 2"
  have 1: "2 * MIN_STEAL_SIZE \<le> remainingBytes (segs ! d)"
    using d(2) by (simp add: isSplittable_def)
  have 2: "fst r = Some (length segs)" using r by simp
  have 3: "length (m_segments (snd r)) = length segs + 1"
    using r by (simp add: stolen_fields segs_def)
  have 4: "m_segments (snd r) ! d = (segs ! d)\<lparr>m_endByte := midpoint - 1\<rparr>"
    using r stolen_segments(1)[of d s worker] dl by (simp add: segs_def midpoint_def)
  have 5: "m_segments (snd r) ! length segs
                      = \<lparr>m_id = m_nextSegmentId s, m_startByte = midpoint,
                         m_endByte = m_endByte (segs ! d), m_currentByte = midpoint,
                         m_state = Active, m_tempFilePath = [], m_retryCount = 0,
                         m_lastError = []\<rparr>"
    using r stolen_segments(2)[of d s worker] dl by (simp add: segs_def midpoint_def)
  have 6: "list_all (\<lambda>q. q = d \<or> m_segments (snd r) ! q = segs ! q) [0 ..< length segs]"
  proof -
    have *: "m_segments (snd r) ! q = segs ! q" if "q < length segs" "q \<noteq> d" for q
      using r that dl stolen_segments(3)[of d s q worker] by (simp add: segs_def)
    show ?thesis
      unfolding list_all_iff
    proof (intro ballI)
      fix q assume "q \<in> set [0 ..< length segs]"
      then have "q < length segs" by simp
      then show "q = d \<or> m_segments (snd r) ! q = segs ! q" using *[of q] by blast
    qed
  qed
  have 7: "set (m_activeSegments (snd r)) = insert (length segs) (set act)"
    using r by (auto simp: stolen_fields segs_def act_def set_insert_def)
  have 8: "map_of (m_workerAssignments (snd r)) worker = Some (length segs)"
    using r by (simp add: stolen_fields segs_def assign_def)
  have 9: "m_nextSegmentId (snd r) = (m_nextSegmentId s + 1) mod 2 ^ 32"
    using r by (simp add: stolen_fields)
  have 10: "ids_inv s \<and> length segs < 2 ^ 32 \<longrightarrow>
              list_all (\<lambda>seg. m_id seg \<noteq> m_nextSegmentId s) segs
              \<and> distinct (map m_id (m_segments (snd r)))
              \<and> ids_inv (snd r)"
  proof (intro impI conjI)
    assume h: "ids_inv s \<and> length segs < 2 ^ 32"
    then have i: "ids_inv s" and lt: "length (m_segments s) < 2 ^ 32"
      by (simp_all add: segs_def)
    show "list_all (\<lambda>seg. m_id seg \<noteq> m_nextSegmentId s) segs"
      using ids_inv_fresh(2)[OF i lt] by (simp add: segs_def)
    show i': "ids_inv (snd r)" using r ids_inv_stolen[OF i] by simp
    have "length (m_segments (snd r)) \<le> 2 ^ 32" using 3 lt by (simp add: segs_def)
    then show "distinct (map m_id (m_segments (snd r)))" by (rule ids_inv_fresh(1)[OF i'])
  qed
  show ?thesis
    using True d(1,3) 1 2 3 4 5 6 7 8 9 10 midpoint_def by (simp only: if_True) blast
qed

theorem C5_stealWork_witness:
  "list_all (\<lambda>p. p < length (m_segments steal_example)) (m_activeSegments steal_example)
   \<and> flags_inv steal_example
   \<and> fst (stealWork 7 steal_example) = Some 1
   \<and> m_endByte (m_segments (snd (stealWork 7 steal_example)) ! 0) = 2097151
   \<and> m_startByte (m_segments (snd (stealWork 7 steal_example)) ! 1) = 2097152
   \<and> m_endByte (m_segments (snd (stealWork 7 steal_example)) ! 1) = 4194303
   \<and> m_id (m_segments (snd (stealWork 7 steal_example)) ! 1) = 1
   \<and> ids_inv steal_example \<and> length (m_segments steal_example) < 2 ^ 32
   \<and> list_all (\<lambda>seg. m_id seg \<noteq> 1) (m_segments steal_example)
   \<and> distinct (map m_id (m_segments (snd (stealWork 7 steal_example))))"
proof -
  have seg0: "m_segments steal_example = [setState Active (Segment_new 0 0 4194303)]"
    and act: "m_activeSegments steal_example = [0]"
    and nid: "m_nextSegmentId steal_example = 1"
    by (simp_all add: steal_example_def SegmentScheduler_new_def)
  have h1: "list_all (\<lambda>p. p < length (m_segments steal_example)) (m_activeSegments steal_example)"
    by (simp add: seg0 act)
  have h2: "flags_inv steal_example"
    by (simp add: flags_inv_def steal_example_def SegmentScheduler_new_def)
  have h3: "ids_inv steal_example"
    by (simp add: ids_inv_def seg0 nid setState_def Segment_new_def)
  have h4: "length (m_segments steal_example) < 2 ^ 32" by (simp add: seg0)
  have rem: "remainingBytes (setState Active (Segment_new 0 0 4194303)) = 4194304"
    and cur: "m_currentByte (setState Active (Segment_new 0 0 4194303)) = 0"
    and en: "m_endByte (setState Active (Segment_new 0 0 4194303)) = 4194303"
    by (simp_all add: remainingBytes_def setState_def Segment_new_def)
  have ex: "list_ex (\<lambda>p. isSplittable MIN_STEAL_SIZE (m_segments steal_example ! p))
      (m_activeSegments steal_example)"
    by (simp add: seg0 act isSplittable_def MIN_STEAL_SIZE_def rem)
  from C5_stealWork[OF h1 h2, of 7] ex
  obtain d midpoint where
    d: "d \<in> set (m_activeSegments steal_example)"
    and m: "midpoint = m_currentByte (m_segments steal_example ! d)
               + remainingBytes (m_segments steal_example ! d) div 2"
    and r1: "fst (stealWork 7 steal_example) = Some (length (m_segments steal_example))"
    and r2: "m_segments (snd (stealWork 7 steal_example)) ! d
               = (m_segments steal_example ! d)\<lparr>m_endByte := midpoint - 1\<rparr>"
    and r3: "m_segments (snd (stealWork 7 steal_example)) ! length (m_segments steal_example)
               = \<lparr>m_id = m_nextSegmentId steal_example, m_startByte = midpoint,
                  m_endByte = m_endByte (m_segments steal_example ! d), m_currentByte = midpoint,
                  m_state = Active, m_tempFilePath = [], m_retryCount = 0, m_lastError = []\<rparr>"
    and r4: "ids_inv steal_example \<and> length (m_segments steal_example) < 2 ^ 32 \<longrightarrow>
               list_all (\<lambda>seg. m_id seg \<noteq> m_nextSegmentId steal_example)
                 (m_segments steal_example)
               \<and> distinct (map m_id (m_segments (snd (stealWork 7 steal_example))))
               \<and> ids_inv (snd (stealWork 7 steal_example))"
    by (simp only: if_True) blast
  from d have d0: "d = 0" by (simp add: act)
  have mid: "midpoint = 2097152" using m by (simp add: d0 seg0 rem cur)
  from r4 h3 h4 have f1: "list_all (\<lambda>seg. m_id seg \<noteq> m_nextSegmentId steal_example)
                 (m_segments steal_example)"
    and f2: "distinct (map m_id (m_segments (snd (stealWork 7 steal_example))))"
    by blast+
  from f1 have f3: "list_all (\<lambda>seg. m_id seg \<noteq> 1) (m_segments steal_example)"
    by (simp only: nid)
  have p: "fst (stealWork 7 steal_example) = Some 1
     \<and> m_endByte (m_segments (snd (stealWork 7 steal_example)) ! 0) = 2097151
     \<and> m_startByte (m_segments (snd (stealWork 7 steal_example)) ! 1) = 2097152
     \<and> m_endByte (m_segments (snd (stealWork 7 steal_example)) ! 1) = 4194303
     \<and> m_id (m_segments (snd (stealWork 7 steal_example)) ! 1) = 1"
    using r1 r2 r3 by (simp add: d0 mid seg0 nid en)
  show ?thesis using h1 h2 p h3 h4 f3 f2 by (intro conjI) simp_all
qed

lemma flags_inv_new: "flags_inv SegmentScheduler_new"
  by (simp add: flags_inv_def SegmentScheduler_new_def)

lemma initLoop_flags:
  "i \<le> n \<Longrightarrow> m_paused (initLoop i n sz r c s) = m_paused s
     \<and> m_cancelled (initLoop i n sz r c s) = m_cancelled s"
proof (induction "n - i" arbitrary: i c s)
  case 0
  then have "\<not> i < n" by simp
  then show ?case by (simp add: initLoop_stop)
next
  case (Suc d)
  then have lt: "i < n" by simp
  have "d = n - (i + 1)" "i + 1 \<le> n" using Suc.hyps(2) lt by simp_all
  from Suc.hyps(1)[OF this] show ?case
    by (simp add: initLoop_step[OF lt])
qed

lemma flags_inv_initializeSegments:
  "flags_inv (snd (initializeSegments totalSz requested s))"
  using initLoop_frame[of 0] initLoop_flags[of 0]
  by (simp add: initializeSegments_def Let_def flags_inv_def)

lemma flags_inv_stealWork: "flags_inv s \<Longrightarrow> flags_inv (snd (stealWork w s))"
  by (cases "m_paused s \<or> m_cancelled s \<or> findLargestActiveSegment s = None")
     (auto simp: stealWork_None stealWork_Some flags_inv_def stolen_fields)

lemma flags_inv_acquireSegment: "flags_inv s \<Longrightarrow> flags_inv (snd (acquireSegment w s))"
proof (cases "m_paused s \<or> m_cancelled s")
  case True
  assume "flags_inv s"
  with True show ?thesis by (auto simp: acquireSegment_def)
next
  case False
  assume "flags_inv s"
  with False flags_inv_stealWork[of s w] show ?thesis
    by (cases "m_pendingQueue s") (auto simp: acquireSegment_def flags_inv_def)
qed

lemma flags_inv_releaseSegment: "flags_inv s \<Longrightarrow> flags_inv (releaseSegment w p s)"
  by (auto simp: releaseSegment_def flags_inv_def Let_def set_erase_def checkAllComplete_def
      emit_def split: SegmentState.splits if_splits)

lemma flags_inv_markFailed: "flags_inv s \<Longrightarrow> flags_inv (markFailed p e s)"
  by (auto simp: markFailed_def flags_inv_def Let_def set_erase_def emit_def split: if_splits)

lemma pauseLoop_flags:
  "m_paused (pauseLoop ps s) = m_paused s \<and> m_cancelled (pauseLoop ps s) = m_cancelled s"
  by (induction ps arbitrary: s) simp_all

lemma flags_inv_pauseAll: "flags_inv (pauseAll s)"
  by (simp add: pauseAll_def flags_inv_def)

lemma flags_inv_resumeAll: "flags_inv s \<Longrightarrow> flags_inv (resumeAll s)"
  by (auto simp: resumeAll_def flags_inv_def split: if_splits)

lemma flags_inv_cancelAll: "flags_inv (cancelAll s)"
  by (simp add: cancelAll_def flags_inv_def)

lemma flags_inv_reset: "flags_inv (reset s)"
  by (simp add: reset_def flags_inv_def)

lemma rebalanceLoop_flags:
  "m_paused (rebalanceLoop slow ps s) = m_paused s
   \<and> m_cancelled (rebalanceLoop slow ps s) = m_cancelled s
   \<and> m_activeSegments (rebalanceLoop slow ps s) = m_activeSegments s"
  by (induction ps arbitrary: s)
     (auto simp: rebalanceStep_def nextSegmentId_def split_def Let_def)

lemma flags_inv_rebalanceSegments: "flags_inv s \<Longrightarrow> flags_inv (rebalanceSegments slow s)"
  by (simp add: rebalanceSegments_def flags_inv_def rebalanceLoop_flags Let_def emit_def)


section \<open>Properties of the worker\<close>

subsection \<open>Failures and retries\<close>

text \<open>
  The two places of the scheduler that handle a failed segment. \<open>markFailed\<close> counts the
  failure before it decides; \<open>releaseSegment\<close> decides on the count as it finds it.
\<close>

lemma markFailed_requeues:
  assumes "p < length (m_segments s)" "m_retryCount (m_segments s ! p) + 1 < MAX_RETRIES"
  shows "m_pendingQueue (markFailed p err s) = m_pendingQueue s @ [p]"
    and "m_retryCount (m_segments (markFailed p err s) ! p) = m_retryCount (m_segments s ! p) + 1"
    and "m_state (m_segments (markFailed p err s) ! p) = Pending"
    and "m_failedSegments (markFailed p err s) = m_failedSegments s"
  using assms
  by (simp_all add: markFailed_def Let_def canRetry_def incrementRetry_def setLastError_def
      setState_def)

lemma markFailed_terminal:
  assumes "p < length (m_segments s)" "MAX_RETRIES \<le> m_retryCount (m_segments s ! p) + 1"
  shows "m_pendingQueue (markFailed p err s) = m_pendingQueue s"
    and "m_state (m_segments (markFailed p err s) ! p) = Failed"
    and "m_failedSegments (markFailed p err s) = set_insert p (m_failedSegments s)"
    and "m_signals (markFailed p err s)
           = m_signals s @ [segmentFailed (m_id (m_segments s ! p)) err]"
  using assms
  by (simp_all add: markFailed_def Let_def canRetry_def incrementRetry_def setLastError_def
      setState_def emit_def)

lemma releaseSegment_failed:
  assumes "p < length (m_segments s)" "m_state (m_segments s ! p) = Failed"
  shows "if m_retryCount (m_segments s ! p) < MAX_RETRIES
         then m_pendingQueue (releaseSegment w p s) = m_pendingQueue s @ [p]
              \<and> m_state (m_segments (releaseSegment w p s) ! p) = Pending
              \<and> m_retryCount (m_segments (releaseSegment w p s) ! p)
                   = m_retryCount (m_segments s ! p)
              \<and> m_failedSegments (releaseSegment w p s) = m_failedSegments s
              \<and> m_signals (releaseSegment w p s) = m_signals s
         else m_pendingQueue (releaseSegment w p s) = m_pendingQueue s
              \<and> m_state (m_segments (releaseSegment w p s) ! p) = Failed
              \<and> m_failedSegments (releaseSegment w p s) = set_insert p (m_failedSegments s)
              \<and> m_signals (releaseSegment w p s)
                   = m_signals s @ [segmentFailed (m_id (m_segments s ! p))
                                      (m_lastError (m_segments s ! p))]"
  using assms
  by (simp add: releaseSegment_def Let_def canRetry_def setState_def emit_def)

text \<open>
  One pass of the worker's loop over a transfer that fails with \<open>CURLE_RECV_ERROR\<close>: the
  segment is back in the pending queue and its retry count is what it was.
\<close>

lemma fail_iteration:
  assumes "m_pendingQueue s = p # ps" "\<not> m_paused s" "\<not> m_cancelled s"
    and "p < length (m_segments s)" "\<not> m_shouldStop w" "\<not> m_isPaused w"
    and "tr_openOk tr" "tr_buffers tr = []" "tr_result tr = CURLE_RECV_ERROR"
    and "canRetry (m_segments s ! p)"
  shows "\<exists>w' s'. run_iteration dir fileName tr w s = (Continue, w', s')
     \<and> m_pendingQueue s' = ps @ [p]
     \<and> m_retryCount (m_segments s' ! p) = m_retryCount (m_segments s ! p)
     \<and> m_state (m_segments s' ! p) = Pending
     \<and> length (m_segments s') = length (m_segments s)
     \<and> m_failedSegments s' = m_failedSegments s
     \<and> m_signals s' = m_signals s
     \<and> m_paused s' = m_paused s \<and> m_cancelled s' = m_cancelled s
     \<and> m_shouldStop w' = m_shouldStop w \<and> m_isPaused w' = m_isPaused w"
  using assms
  by (simp add: run_iteration_def acquireSegment_def downloadSegment_def openTempFile_def
      curl_easy_perform_def handleCurlError_def atSegment_def releaseSegment_def Let_def
      setState_def setLastError_def canRetry_def)

lemma fail_iterations:
  assumes "tr_openOk tr" "tr_buffers tr = []" "tr_result tr = CURLE_RECV_ERROR"
  shows "m_pendingQueue s = [p] \<Longrightarrow> \<not> m_paused s \<Longrightarrow> \<not> m_cancelled s
    \<Longrightarrow> p < length (m_segments s) \<Longrightarrow> \<not> m_shouldStop w \<Longrightarrow> \<not> m_isPaused w
    \<Longrightarrow> canRetry (m_segments s ! p)
    \<Longrightarrow> \<exists>w' s'. run_iterations n dir fileName tr w s = (Continue, w', s')
     \<and> m_pendingQueue s' = [p]
     \<and> m_retryCount (m_segments s' ! p) = m_retryCount (m_segments s ! p)
     \<and> m_failedSegments s' = m_failedSegments s
     \<and> m_signals s' = m_signals s"
proof (induction n arbitrary: w s)
  case 0
  then show ?case by simp
next
  case (Suc n)
  from fail_iteration[OF Suc.prems(1-6) assms Suc.prems(7), of dir fileName]
  obtain w1 s1 where it: "run_iteration dir fileName tr w s = (Continue, w1, s1)"
    and q: "m_pendingQueue s1 = [p]"
    and r: "m_retryCount (m_segments s1 ! p) = m_retryCount (m_segments s ! p)"
    and l: "length (m_segments s1) = length (m_segments s)"
    and f: "m_failedSegments s1 = m_failedSegments s" "m_signals s1 = m_signals s"
    and fl: "m_paused s1 = m_paused s" "m_cancelled s1 = m_cancelled s"
      "m_shouldStop w1 = m_shouldStop w" "m_isPaused w1 = m_isPaused w"
    by auto
  have cr: "canRetry (m_segments s1 ! p)" using Suc.prems(7) r by (simp add: canRetry_def)
  from Suc.IH[OF q, of w1] fl Suc.prems l cr
  obtain w' s' where "run_iterations n dir fileName tr w1 s1 = (Continue, w', s')"
     "m_pendingQueue s' = [p]"
     "m_retryCount (m_segments s' ! p) = m_retryCount (m_segments s1 ! p)"
     "m_failedSegments s' = m_failedSegments s1" "m_signals s' = m_signals s1"
    by auto
  then show ?case using it r f by simp
qed

text \<open>
  Claim C4. A segment is to be re-queued at most \<open>MAX_RETRIES = 5\<close> times, its retry count
  going up with each failure, and then to fail for good: failed set, \<open>segmentFailed\<close>. The
  worker reports a failed transfer by setting the state \<open>Failed\<close> and calling
  \<open>releaseSegment\<close>, which does not count. In \<open>retry_example\<close> the only segment has failed
  six times in a row: the loop goes on, the segment is pending again, its retry count
  is still \<open>0\<close>, the failed set is empty and no signal was emitted.
\<close>

theorem C4_worker_failures_requeue_without_bound:
  "fst retry_example = Continue
   \<and> m_pendingQueue (snd (snd retry_example)) = [0]
   \<and> m_retryCount (m_segments (snd (snd retry_example)) ! 0) = 0
   \<and> m_failedSegments (snd (snd retry_example)) = []
   \<and> m_signals (snd (snd retry_example)) = []"
proof -
  define s0 where "s0 = snd (initializeSegments 1000 1 SegmentScheduler_new)"
  have st: "s0 = SegmentScheduler_new\<lparr>m_segments := [Segment_new 0 0 999],
      m_pendingQueue := [0], m_activeSegments := [], m_completedSegments := [],
      m_failedSegments := [], m_nextSegmentId := 1\<rparr>"
    unfolding s0_def using initializeSegments_single_state[of 1000 SegmentScheduler_new] by simp
  have q: "m_pendingQueue s0 = [0]"
    and fl: "\<not> m_paused s0" "\<not> m_cancelled s0" "m_failedSegments s0 = []" "m_signals s0 = []"
    and c: "canRetry (m_segments s0 ! 0)" "m_retryCount (m_segments s0 ! 0) = 0"
    and l: "0 < length (m_segments s0)"
    unfolding st
    by (simp_all add: SegmentScheduler_new_def canRetry_def Segment_new_def MAX_RETRIES_def)
  have t: "tr_openOk failing" "tr_buffers failing = []" "tr_result failing = CURLE_RECV_ERROR"
    by (simp_all add: failing_def)
  have w: "\<not> m_shouldStop (SegmentWorker_new 1)" "\<not> m_isPaused (SegmentWorker_new 1)"
    by (simp_all add: SegmentWorker_new_def)
  have r: "retry_example
      = run_iterations 6 ''/downloads'' ''file.bin'' failing (SegmentWorker_new 1) s0"
    by (simp only: retry_example_def s0_def)
  from fail_iterations[OF t q fl(1,2) l w c(1), of 6 "''/downloads''" "''file.bin''"]
  obtain w' s' where
    "run_iterations 6 ''/downloads'' ''file.bin'' failing (SegmentWorker_new 1) s0
       = (Continue, w', s')"
    "m_pendingQueue s' = [0]" "m_retryCount (m_segments s' ! 0) = m_retryCount (m_segments s0 ! 0)"
    "m_failedSegments s' = m_failedSegments s0" "m_signals s' = m_signals s0"
    by blast
  then show ?thesis using fl c by (simp add: r)
qed

subsection \<open>Classification of HTTP errors\<close>

lemma handleCurlError_http:
  "handleCurlError CURLE_HTTP_RETURNED_ERROR seg httpCode errorStr
     = \<lparr>category = ServerError, errorCode = httpCode,
        message = ''HTTP error '' @ arg_int httpCode, details = errorStr,
        retryCount = m_retryCount seg\<rparr>"
  by (simp add: handleCurlError_def)

text \<open>
  Claim C6. A segment GET that fails with an HTTP status is to be classified by the
  status: \<open>ClientError\<close> for 4xx, which is not recoverable and not re-queued, \<open>Network\<close> for
  408 and 429, \<open>ServerError\<close> for 5xx. In \<open>not_found_example\<close> the server answers 404. The
  transfer ends with \<open>CURLE_OK\<close>, the nine bytes of the error body are written as data of
  the segment, and the worker reports an incomplete download: the error is never
  classified, the segment is pending again with retry count \<open>0\<close>, the failed set is empty
  and no signal was emitted. The one place that reads the HTTP status, the branch of
  \<open>handleCurlError\<close> for \<open>CURLE_HTTP_RETURNED_ERROR\<close>, gives \<open>ServerError\<close> to every status
  (lemma \<open>handleCurlError_http\<close>).
\<close>

theorem C6_http_404_is_not_classified:
  "fst not_found_example = Continue
   \<and> m_pendingQueue (snd (snd not_found_example)) = [0]
   \<and> m_state (m_segments (snd (snd not_found_example)) ! 0) = Pending
   \<and> m_lastError (m_segments (snd (snd not_found_example)) ! 0) = ''Incomplete download''
   \<and> m_currentByte (m_segments (snd (snd not_found_example)) ! 0) = 9
   \<and> m_retryCount (m_segments (snd (snd not_found_example)) ! 0) = 0
   \<and> m_failedSegments (snd (snd not_found_example)) = []
   \<and> m_signals (snd (snd not_found_example)) = []"
proof -
  define s0 where "s0 = snd (initializeSegments 1000 1 SegmentScheduler_new)"
  have st: "s0 = SegmentScheduler_new\<lparr>m_segments := [Segment_new 0 0 999],
      m_pendingQueue := [0], m_activeSegments := [], m_completedSegments := [],
      m_failedSegments := [], m_nextSegmentId := 1\<rparr>"
    unfolding s0_def using initializeSegments_single_state[of 1000 SegmentScheduler_new] by simp
  have r: "not_found_example
      = run_iteration ''/downloads'' ''file.bin'' not_found (SegmentWorker_new 1) s0"
    by (simp only: not_found_example_def s0_def)
  show ?thesis
    unfolding r st
    by (simp add: run_iteration_def acquireSegment_def downloadSegment_def openTempFile_def
        curl_easy_perform_def writeCallback_def file_write_def atSegment_def releaseSegment_def
        Let_def setState_def setLastError_def canRetry_def SegmentScheduler_new_def
        SegmentWorker_new_def Segment_new_def not_found_def downloadedBytes_def advanceBy_def
        set_insert_def set_erase_def assign_def unassign_def MAX_RETRIES_def)
qed

subsection \<open>The write callback and the end of the segment\<close>

lemma steal_example_stolen:
  "stealWork 7 steal_example = (Some 1, stolen 7 0 steal_example)"
proof -
  have f: "findLargestActiveSegment steal_example = Some 0"
    by (simp add: findLargestActiveSegment_def steal_example_def SegmentScheduler_new_def
        Let_def remainingBytes_def isSplittable_def MIN_STEAL_SIZE_def setState_def
        Segment_new_def)
  have "\<not> m_paused steal_example" "\<not> m_cancelled steal_example"
    "length (m_segments steal_example) = 1"
    by (simp_all add: steal_example_def SegmentScheduler_new_def)
  with stealWork_Some[OF _ _ f, of 7] show ?thesis by simp
qed

lemma overrun_scheduler_segments:
  "m_segments overrun_scheduler =
     [\<lparr>m_id = 0, m_startByte = 0, m_endByte = 2097151, m_currentByte = 2097148,
       m_state = Active, m_tempFilePath = [], m_retryCount = 0, m_lastError = []\<rparr>,
      \<lparr>m_id = 1, m_startByte = 2097152, m_endByte = 4194303, m_currentByte = 2097152,
       m_state = Active, m_tempFilePath = [], m_retryCount = 0, m_lastError = []\<rparr>]"
proof -
  have e: "overrun_scheduler = call (CallAdvance 0 2097148) (stolen 7 0 steal_example)"
    by (simp only: overrun_scheduler_def steal_example_stolen snd_conv)
  show ?thesis
    unfolding e
    by (simp add: stolen_def Let_def steal_example_def SegmentScheduler_new_def setState_def
        Segment_new_def remainingBytes_def advanceBy_def)
qed

text \<open>
  Claim C1. The write callback is to write only the bytes up to the segment's end and
  to return fewer bytes than offered when the buffer reaches beyond it. The callback
  does not read the end. In \<open>overrun_scheduler\<close> the donor's segment ends at \<open>2097151\<close>
  after the split and stands at \<open>2097148\<close>, four bytes before \<open>end + 1\<close>; offered eight
  bytes, the callback reports all eight as written and the temp file holds all eight.
\<close>

theorem C1_write_callback_writes_past_end:
  "m_endByte (m_segments overrun_scheduler ! 0) = 2097151
   \<and> m_currentByte (m_segments overrun_scheduler ! 0) = 2097148
   \<and> fst (writeCallback ''abcdefgh'' overrun_worker overrun_scheduler) = 8
   \<and> map_option tf_bytes
        (m_tempFile (fst (snd (writeCallback ''abcdefgh'' overrun_worker overrun_scheduler))))
       = Some (earlier_bytes @ ''abcdefgh'')"
  by (simp add: overrun_scheduler_segments writeCallback_def overrun_worker_def
      SegmentWorker_new_def file_write_def Let_def)

text \<open>
  Claim C2. \<open>start \<le> current_byte \<le> end + 1\<close> is to hold for every segment at all times,
  also after a split has shrunk the end. In \<open>overrun_scheduler\<close> it holds for the donor's
  segment; after the write callback has taken eight bytes, \<open>end + 1\<close> is \<open>2097152\<close> and
  \<open>current_byte\<close> is \<open>2097156\<close>, inside the range of the stolen segment, which starts at
  \<open>2097152\<close>.
\<close>

theorem C2_current_byte_exceeds_end:
  "m_startByte (m_segments overrun_scheduler ! 0) \<le> m_currentByte (m_segments overrun_scheduler ! 0)
   \<and> m_currentByte (m_segments overrun_scheduler ! 0)
        \<le> m_endByte (m_segments overrun_scheduler ! 0) + 1
   \<and> m_endByte (m_segments (snd (snd
          (writeCallback ''abcdefgh'' overrun_worker overrun_scheduler))) ! 0) + 1 = 2097152
   \<and> m_currentByte (m_segments (snd (snd
          (writeCallback ''abcdefgh'' overrun_worker overrun_scheduler))) ! 0) = 2097156
   \<and> m_startByte (m_segments (snd (snd
          (writeCallback ''abcdefgh'' overrun_worker overrun_scheduler))) ! 1) = 2097152"
  by (simp add: overrun_scheduler_segments writeCallback_def overrun_worker_def
      SegmentWorker_new_def file_write_def Let_def advanceBy_def)

subsection \<open>A scheduler without segments\<close>

text \<open>
  Claim C10. \<open>isAllComplete\<close> asks only that the pending queue, the active set and the
  failed set are empty, so it holds for a new scheduler and after \<open>reset\<close>, which hold no
  segment at all; after \<open>cancelAll\<close>, which leaves the failed set as it is, it holds when
  that set was empty. A worker that is neither stopped nor paused and finds such a
  scheduler, not paused and not cancelled, gets no segment, times out in \<open>waitForWork\<close>
  and leaves its loop, though no segment was ever completed. On a paused or cancelled
  scheduler the wait does not time out and the loop goes round.
\<close>

theorem C10_empty_scheduler_is_all_complete:
  assumes "\<not> m_shouldStop w" and "\<not> m_isPaused w"
  shows "isAllComplete SegmentScheduler_new
    \<and> isAllComplete (reset s)
    \<and> (isAllComplete (cancelAll s) \<longleftrightarrow> m_failedSegments s = [])
    \<and> (if m_pendingQueue s = [] \<and> m_activeSegments s = [] \<and> m_failedSegments s = []
        then isAllComplete s
             \<and> (if m_paused s \<or> m_cancelled s
                 then run_iteration dir fileName tr w s = (Continue, w, s)
                 else run_iteration dir fileName tr w s = (Break, w, s))
        else True)
    \<and> run_iteration dir fileName tr w SegmentScheduler_new = (Break, w, SegmentScheduler_new)
    \<and> run_iteration dir fileName tr w (reset s) = (Break, w, reset s)
    \<and> m_segments (reset s) = [] \<and> m_completedSegments (reset s) = []
    \<and> m_segments SegmentScheduler_new = [] \<and> m_completedSegments SegmentScheduler_new = []"
proof -
  have idle: "run_iteration dir fileName tr w s' = (Break, w, s')"
    if "m_pendingQueue s' = []" "m_activeSegments s' = []" "m_failedSegments s' = []"
      "\<not> m_paused s'" "\<not> m_cancelled s'" for s'
  proof -
    have "findLargestActiveSegment s' = None"
      using that by (simp add: findLargestActiveSegment_def)
    then have "acquireSegment (m_self w) s' = (None, s')"
      using that by (simp add: acquireSegment_def stealWork_None)
    then show ?thesis
      using that assms by (simp add: run_iteration_def waitForWork_def isAllComplete_def)
  qed
  have held: "run_iteration dir fileName tr w s' = (Continue, w, s')"
    if "m_pendingQueue s' = []" "m_activeSegments s' = []" "m_paused s' \<or> m_cancelled s'"
    for s'
  proof -
    have "acquireSegment (m_self w) s' = (None, s')"
      using that by (auto simp: acquireSegment_def)
    then show ?thesis
      using that assms by (auto simp: run_iteration_def waitForWork_def)
  qed
  have 1: "isAllComplete SegmentScheduler_new"
    by (simp add: isAllComplete_def SegmentScheduler_new_def)
  have 2: "isAllComplete (reset s)" by (simp add: isAllComplete_def reset_def)
  have 3: "isAllComplete (cancelAll s) \<longleftrightarrow> m_failedSegments s = []"
    by (simp add: isAllComplete_def cancelAll_def)
  have 4: "run_iteration dir fileName tr w SegmentScheduler_new = (Break, w, SegmentScheduler_new)"
    by (rule idle) (simp_all add: SegmentScheduler_new_def)
  have 5: "run_iteration dir fileName tr w (reset s) = (Break, w, reset s)"
    by (rule idle) (simp_all add: reset_def)
  have 6: "m_segments (reset s) = [] \<and> m_completedSegments (reset s) = []
    \<and> m_segments SegmentScheduler_new = [] \<and> m_completedSegments SegmentScheduler_new = []"
    by (simp add: reset_def SegmentScheduler_new_def)
  have 7: "if m_pendingQueue s = [] \<and> m_activeSegments s = [] \<and> m_failedSegments s = []
        then isAllComplete s
             \<and> (if m_paused s \<or> m_cancelled s
                 then run_iteration dir fileName tr w s = (Continue, w, s)
                 else run_iteration dir fileName tr w s = (Break, w, s))
        else True"
    using idle[of s] held[of s] by (simp add: isAllComplete_def)
  show ?thesis using 1 2 3 4 5 6 7 by simp
qed

theorem C10_empty_scheduler_is_all_complete_witness:
  "\<not> m_shouldStop (SegmentWorker_new 1) \<and> \<not> m_isPaused (SegmentWorker_new 1)
   \<and> isAllComplete SegmentScheduler_new
   \<and> isAllComplete (reset steal_example)
   \<and> run_iteration ''/downloads'' ''file.bin'' failing (SegmentWorker_new 1) (reset steal_example)
        = (Break, SegmentWorker_new 1, reset steal_example)"
proof -
  have h: "\<not> m_shouldStop (SegmentWorker_new 1)" "\<not> m_isPaused (SegmentWorker_new 1)"
    by (simp_all add: SegmentWorker_new_def)
  note t = C10_empty_scheduler_is_all_complete[OF h, of steal_example "''/downloads''"
      "''file.bin''" failing]
  from t have a: "isAllComplete SegmentScheduler_new" by blast
  from t have b: "isAllComplete (reset steal_example)" by blast
  from t have c: "run_iteration ''/downloads'' ''file.bin'' failing (SegmentWorker_new 1)
      (reset steal_example) = (Break, SegmentWorker_new 1, reset steal_example)" by blast
  show ?thesis using h a b c by (intro conjI)
qed


section \<open>Properties of the merge\<close>

lemma copyLoop_atEnd:
  "\<not> pos < length bytes \<Longrightarrow> copyLoop bytes fault pos out room = (True, out, room)"
  by (subst copyLoop.simps) simp

lemma copyLoop_readError:
  "pos < length bytes \<Longrightarrow> file_read bytes fault pos FILE_BUFFER_SIZE \<le> 0
     \<Longrightarrow> copyLoop bytes fault pos out room = (True, out, room)"
  by (subst copyLoop.simps) simp

lemma copyLoop_copy:
  "pos < length bytes \<Longrightarrow> file_read bytes fault pos FILE_BUFFER_SIZE = int n \<Longrightarrow> 0 < n
     \<Longrightarrow> n \<le> room
     \<Longrightarrow> copyLoop bytes fault pos out room
           = copyLoop bytes fault (pos + n) (out @ take n (drop pos bytes)) (room - n)"
  by (subst copyLoop.simps) (simp add: Let_def device_write_def)

lemma copyLoop_shortWrite:
  "pos < length bytes \<Longrightarrow> file_read bytes fault pos FILE_BUFFER_SIZE = int n \<Longrightarrow> 0 < n
     \<Longrightarrow> room < n
     \<Longrightarrow> copyLoop bytes fault pos out room
           = (False, out @ take room (take n (drop pos bytes)), 0)"
  by (subst copyLoop.simps) (simp add: Let_def device_write_def)

text \<open>
  Whenever the merge returns false after it has opened the output file, the final file
  is gone, and the task ends in \<open>Failed\<close> with the category \<open>FileSystem\<close>.
\<close>

lemma mergeLoop_failed_removes:
  "\<not> fst (mergeLoop filePath segs out fs)
     \<Longrightarrow> fs_files (snd (mergeLoop filePath segs out fs)) filePath = None"
  by (induction segs arbitrary: out fs) (auto split: option.splits prod.splits bool.splits)

lemma mergeSegments_failed_removes:
  "\<not> fst (mergeSegments filePath segs fs) \<Longrightarrow> filePath \<notin> set (fs_unwritable fs)
     \<Longrightarrow> fs_files (snd (mergeSegments filePath segs fs)) filePath = None"
  by (simp add: mergeSegments_def mergeLoop_failed_removes)

lemma onAllSegmentsCompleted_failed:
  "\<not> fst (mergeSegments (task_filePath t) segs fs)
     \<Longrightarrow> task_state (fst (onAllSegmentsCompleted segs t fs)) = DlFailed
         \<and> category (task_lastError (fst (onAllSegmentsCompleted segs t fs))) = FileSystem"
  by (cases "mergeSegments (task_filePath t) segs fs")
     (simp add: onAllSegmentsCompleted_def task_setState_def Let_def)

lemma sorted_example:
  "sort_key m_startByte merge_segments_example = rev merge_segments_example"
  by (simp add: merge_segments_example_def Segment_new_def)

lemma copy_p0_fault: "copyLoop ''abcd'' (Some 2) 0 [] 1000 = (True, ''ab'', 998)"
proof -
  have "copyLoop ''abcd'' (Some 2) 0 [] 1000
      = copyLoop ''abcd'' (Some 2) (0 + 2) ([] @ take 2 (drop 0 ''abcd'')) (1000 - 2)"
    by (rule copyLoop_copy) (simp_all add: file_read_def FILE_BUFFER_SIZE_def)
  also have "\<dots> = (True, [] @ take 2 (drop 0 ''abcd''), 1000 - 2)"
    by (rule copyLoop_readError) (simp_all add: file_read_def)
  also have "\<dots> = (True, ''ab'', 998)" by simp
  finally show ?thesis .
qed

lemma copy_p1: "copyLoop ''efgh'' None 0 ''ab'' 998 = (True, ''abefgh'', 994)"
proof -
  have "copyLoop ''efgh'' None 0 ''ab'' 998
      = copyLoop ''efgh'' None (0 + 4) (''ab'' @ take 4 (drop 0 ''efgh'')) (998 - 4)"
    by (rule copyLoop_copy) (simp_all add: file_read_def FILE_BUFFER_SIZE_def)
  also have "\<dots> = (True, ''ab'' @ take 4 (drop 0 ''efgh''), 998 - 4)"
    by (rule copyLoop_atEnd) simp
  also have "\<dots> = (True, ''abefgh'', 994)" by simp
  finally show ?thesis .
qed

text \<open>
  Claim C7. The temp files are to be concatenated in ascending order of start, and any
  read or write that falls short is to abort the merge, delete the final file and put
  the task in \<open>Failed\<close> with the category \<open>FileSystem\<close>. The copy loop leaves on
  \<open>read <= 0\<close> as it does at the end of the file. In \<open>read_fault_example\<close> reading the
  temp file of the first segment fails after two of its four bytes: the merge returns
  true, the final file stays with the six bytes \<open>abefgh\<close> of an 8-byte download, and the
  task ends in \<open>Completed\<close> without an error.
\<close>

theorem C7_read_error_is_not_detected:
  "fst (mergeSegments ''/d/f'' merge_segments_example read_fault_example)
   \<and> fs_files (snd (mergeSegments ''/d/f'' merge_segments_example read_fault_example)) ''/d/f''
        = Some ''abefgh''
   \<and> task_state (fst (onAllSegmentsCompleted merge_segments_example merge_task_example
                        read_fault_example)) = DlCompleted
   \<and> category (task_lastError (fst (onAllSegmentsCompleted merge_segments_example
                        merge_task_example read_fault_example))) = NoError"
proof -
  have m: "mergeSegments ''/d/f'' merge_segments_example read_fault_example
     = (True, read_fault_example\<lparr>fs_files := (fs_files read_fault_example)(''/d/f'' \<mapsto> ''abefgh''),
               fs_room := 994\<rparr>)"
    unfolding mergeSegments_def sorted_example
    by (simp add: merge_segments_example_def read_fault_example_def Segment_new_def
        copy_p0_fault copy_p1)
  show ?thesis
    by (simp add: onAllSegmentsCompleted_def merge_task_example_def m task_setState_def Let_def)
qed

text \<open>
  The write path on the same segments, with room for six of the eight bytes: the merge
  returns false, the final file is removed, the task ends in \<open>Failed\<close> with \<open>FileSystem\<close>.
\<close>

lemma copy_p0: "copyLoop ''abcd'' None 0 [] 6 = (True, ''abcd'', 2)"
proof -
  have "copyLoop ''abcd'' None 0 [] 6
      = copyLoop ''abcd'' None (0 + 4) ([] @ take 4 (drop 0 ''abcd'')) (6 - 4)"
    by (rule copyLoop_copy) (simp_all add: file_read_def FILE_BUFFER_SIZE_def)
  also have "\<dots> = (True, [] @ take 4 (drop 0 ''abcd''), 6 - 4)"
    by (rule copyLoop_atEnd) simp
  also have "\<dots> = (True, ''abcd'', 2)" by simp
  finally show ?thesis .
qed

lemma copy_p1_full: "copyLoop ''efgh'' None 0 ''abcd'' 2 = (False, ''abcdef'', 0)"
  using copyLoop_shortWrite[of 0 "''efgh''" None 4 2 "''abcd''"]
  by (simp add: file_read_def FILE_BUFFER_SIZE_def)

lemma merge_short_write_fails:
  "\<not> fst (mergeSegments ''/d/f'' merge_segments_example disk_full_example)
   \<and> fs_files (snd (mergeSegments ''/d/f'' merge_segments_example disk_full_example)) ''/d/f''
        = None
   \<and> task_state (fst (onAllSegmentsCompleted merge_segments_example merge_task_example
                        disk_full_example)) = DlFailed
   \<and> category (task_lastError (fst (onAllSegmentsCompleted merge_segments_example
                        merge_task_example disk_full_example))) = FileSystem"
proof -
  have m: "mergeSegments ''/d/f'' merge_segments_example disk_full_example
     = (False, disk_full_example\<lparr>fs_files := (fs_files disk_full_example)(''/d/f'' := None),
               fs_room := 0\<rparr>)"
    unfolding mergeSegments_def sorted_example
    by (simp add: merge_segments_example_def disk_full_example_def Segment_new_def
        copy_p0 copy_p1_full)
  show ?thesis
    by (simp add: onAllSegmentsCompleted_def merge_task_example_def m task_setState_def Let_def)
qed


section \<open>Properties of the manager\<close>

lemma sumDownloaded_eq:
  "sumDownloaded kvs acc = acc + sum_list (map (\<lambda>kv. task_downloadedBytes (snd kv)) kvs)"
  by (induction kvs arbitrary: acc) auto

lemma map_store_fresh:
  assumes "list_all (\<lambda>kv. task_downloadedBytes (snd kv) = 0 \<and> task_state (snd kv) = Queued) kvs"
    and "task_downloadedBytes v = 0" "task_state v = Queued"
  shows "list_all (\<lambda>kv. task_downloadedBytes (snd kv) = 0 \<and> task_state (snd kv) = Queued)
           (map_store k v kvs)"
  using assms by (induction kvs) auto

lemma loadLoop_fresh:
  "list_all (\<lambda>kv. task_downloadedBytes (snd kv) = 0 \<and> task_state (snd kv) = Queued) kvs
     \<Longrightarrow> list_all (\<lambda>kv. task_downloadedBytes (snd kv) = 0 \<and> task_state (snd kv) = Queued)
           (loadLoop rows kvs)"
  by (induction rows arbitrary: kvs) (simp_all add: map_store_fresh DownloadTask_new_def)

lemma sum_fresh:
  "list_all (\<lambda>kv. task_downloadedBytes (snd kv) = 0 \<and> task_state (snd kv) = Queued) kvs
     \<Longrightarrow> sum_list (map (\<lambda>kv. task_downloadedBytes (snd kv)) kvs) = 0"
  by (induction kvs) auto

text \<open>
  A task that was completed with 1000 bytes in an earlier run is loaded into a new
  manager: the session bytes are \<open>0\<close>, which is what was transferred since the start, and
  not more, where claim C8 expects them to count the 1000 bytes of the loaded task.
\<close>

theorem C8_loaded_completed_task_counts_zero:
  "td_state completed_row = DlCompleted
   \<and> td_downloadedSize completed_row = 1000
   \<and> sessionBytesDownloaded
       (onSpeedUpdateTimer (loadState [completed_row] (DownloadManager_new ''/downloads''))) = 0"
  by (simp add: sessionBytesDownloaded_def onSpeedUpdateTimer_def loadState_def updateCounts_def
      DownloadManager_new_def completed_row_def DownloadTask_new_def)

text \<open>
  Claim C8, amended. The session bytes that the speed timer stores are the sum of the
  downloaded sizes of all tasks of the manager, whatever their state, completed tasks
  included. A task that \<open>loadState\<close> restores starts in the state \<open>Queued\<close> with a
  downloaded size of \<open>0\<close>, whatever the stored row says; so after loading into a new
  manager the session bytes are \<open>0\<close> and do not count bytes of earlier runs.
\<close>

theorem C8_session_bytes_sum_of_all_tasks:
  "sessionBytesDownloaded (onSpeedUpdateTimer m)
     = sum_list (map (\<lambda>kv. task_downloadedBytes (snd kv)) (m_tasks m))
   \<and> sessionBytesDownloaded
       (onSpeedUpdateTimer (loadState savedTasks (DownloadManager_new defaultDir))) = 0
   \<and> list_all (\<lambda>kv. task_downloadedBytes (snd kv) = 0 \<and> task_state (snd kv) = Queued)
       (m_tasks (loadState savedTasks (DownloadManager_new defaultDir)))"
proof -
  have 1: "sessionBytesDownloaded (onSpeedUpdateTimer m)
     = sum_list (map (\<lambda>kv. task_downloadedBytes (snd kv)) (m_tasks m))" for m
    by (simp add: sessionBytesDownloaded_def onSpeedUpdateTimer_def sumDownloaded_eq)
  have 3: "list_all (\<lambda>kv. task_downloadedBytes (snd kv) = 0 \<and> task_state (snd kv) = Queued)
       (m_tasks (loadState savedTasks (DownloadManager_new defaultDir)))"
    using loadLoop_fresh[of "[]" savedTasks]
    by (simp add: loadState_def updateCounts_def DownloadManager_new_def)
  have 2: "sessionBytesDownloaded
       (onSpeedUpdateTimer (loadState savedTasks (DownloadManager_new defaultDir))) = 0"
    unfolding 1 by (rule sum_fresh[OF 3])
  show ?thesis using 1 2 3 by simp
qed

lemma findByUrl_Some:
  "findByUrl kvs url = Some tid \<Longrightarrow> \<exists>t. (tid, t) \<in> set kvs \<and> task_url t = url"
  by (induction kvs) (auto split: if_splits)

lemma findByUrl_present:
  "(tid, t) \<in> set kvs \<Longrightarrow> task_url t = url \<Longrightarrow> \<exists>tid'. findByUrl kvs url = Some tid'"
  by (induction kvs) auto

lemma addDownload_invalid:
  "\<not> isValid url \<Longrightarrow> addDownload isValid newId url destPath startImmediately m = (0, m)"
  by (simp add: addDownload_def)

text \<open>
  Claim C9. When a task with the given URL is registered, whatever its state, and the
  URL passes the validity check at the head of \<open>addDownload\<close>, the call returns the id
  of a registered task with that URL (the first in the order of the map, the one
  \<open>findByUrl\<close> finds) and the manager is left as it was: no task is added, the map, the
  counters, the saved rows and the emitted signals are unchanged.
\<close>

theorem C9_duplicate_url_returns_existing_task:
  assumes "isValid url"
    and "(tid, t) \<in> set (m_tasks m)" and "task_url t = url"
  shows "\<exists>existing t'. addDownload isValid newId url destPath startImmediately m = (existing, m)
           \<and> (existing, t') \<in> set (m_tasks m) \<and> task_url t' = url
           \<and> findByUrl (m_tasks m) url = Some existing"
proof -
  from findByUrl_present[OF assms(2,3)] obtain existing
    where f: "findByUrl (m_tasks m) url = Some existing" by blast
  from findByUrl_Some[OF f] obtain t' where "(existing, t') \<in> set (m_tasks m)" "task_url t' = url"
    by blast
  moreover have "addDownload isValid newId url destPath startImmediately m = (existing, m)"
    using assms(1) f by (simp add: addDownload_def)
  ultimately show ?thesis using f by blast
qed

theorem C9_duplicate_url_returns_existing_task_witness:
  "addDownload (\<lambda>u. u \<noteq> []) 9 ''http://host/a.bin'' [] True manager_example
     = (5, manager_example)"
proof -
  have 1: "(\<lambda>u. u \<noteq> []) ''http://host/a.bin''" by simp
  have 2: "(5, (DownloadTask_new 5 ''http://host/a.bin'' ''/downloads/a.bin'')
              \<lparr>task_state := DlCompleted, task_downloadedBytes := 10\<rparr>)
           \<in> set (m_tasks manager_example)"
    by (simp add: manager_example_def DownloadManager_new_def)
  have 3: "task_url ((DownloadTask_new 5 ''http://host/a.bin'' ''/downloads/a.bin'')
              \<lparr>task_state := DlCompleted, task_downloadedBytes := 10\<rparr>) = ''http://host/a.bin''"
    by (simp add: DownloadTask_new_def)
  from C9_duplicate_url_returns_existing_task[of "\<lambda>u. u \<noteq> []", OF 1 2 3, of 9 "[]" True]
  obtain existing t' where
    a: "addDownload (\<lambda>u. u \<noteq> []) 9 ''http://host/a.bin'' [] True manager_example
          = (existing, manager_example)"
    and b: "(existing, t') \<in> set (m_tasks manager_example)"
    by blast
  from b have "existing = 5" by (simp add: manager_example_def DownloadManager_new_def)
  with a show ?thesis by simp
qed

end
